theory Spec2Isabelle
  imports Complex_Main "HOL-Library.Multiset" "HOL-Library.Log_Nat"
begin

section \<open>Scene composition generator of the CLEAR audio question-answering dataset\<close>

text \<open>
  A shallow embedding of \<^verbatim>\<open>scene_generation/scene_generator.py\<close>: the sound
  catalogue (\<^verbatim>\<open>Primary_sounds\<close>), the two constraint checks, the depth-first tree
  instantiation of \<^verbatim>\<open>Scene_generator._generate_scenes_idx\<close> and the split into
  training, validation and test scenes of \<^verbatim>\<open>Scene_generator.generate\<close>.

  Python values are modelled as follows. Sound ids, levels and the constraint values are
  Python integers, hence \<^typ>\<open>int\<close>. A float is an IEEE 754 double, and every float
  operation rounds its exact result to a double. A raised exception is a value of \<open>error\<close> on
  the left of a sum. A \<^verbatim>\<open>dict\<close> that is iterated is an association list in insertion
  order. Node objects live in an arena (a list of nodes); a reference to a node is its index.
  The write-only diagnostic counters (\<^verbatim>\<open>self.stats\<close>,
  \<^verbatim>\<open>generated_count_by_index\<close>, \<^verbatim>\<open>generated_count_by_families\<close>) and the
  \<^verbatim>\<open>print\<close> calls have no influence on any returned value and are left out.
\<close>

subsection \<open>Python values\<close>

datatype error = IndexError | ValueError | AttributeError | OverflowError | ZeroDivisionError

text \<open>\<^verbatim>\<open>xs[i]\<close> on a Python list: a negative index counts from the end, an index out
  of range raises.\<close>

definition py_index :: "'a list \<Rightarrow> int \<Rightarrow> error + 'a" where
  "py_index xs i =
     (if 0 \<le> i \<and> i < int (length xs) then Inr (xs ! nat i)
      else if - int (length xs) \<le> i \<and> i < 0 then Inr (xs ! nat (int (length xs) + i))
      else Inl IndexError)"

text \<open>\<^verbatim>\<open>xs.pop()\<close>: removes the last element, raises on the empty list.\<close>

definition py_pop :: "'a list \<Rightarrow> error + 'a list" where
  "py_pop xs = (if xs = [] then Inl IndexError else Inr (butlast xs))"

subsection \<open>Python floats\<close>

text \<open>
  A Python float is an IEEE 754 binary64 number: a finite value, an infinity (\<open>True\<close> for
  the negative one) or a NaN. A finite float is the real number it denotes; the two zeros
  are not told apart, which no operation below does either.
\<close>

datatype pyfloat = Finite real | Infinity bool | NaN

text \<open>Rounding to an integer, a tie to the even one.\<close>

definition round_half_even :: "real \<Rightarrow> int" where
  "round_half_even x =
     (let f = \<lfloor>x\<rfloor>; d = x - of_int f
      in if d < 1 / 2 then f
         else if 1 / 2 < d then f + 1
         else if even f then f else f + 1)"

text \<open>The power of 2 with exponent \<open>e\<close>, and for a positive \<open>x\<close> the exponent
  \<open>e\<close> with \<open>pow2 e \<le> x < pow2 (e + 1)\<close>.\<close>

definition pow2 :: "int \<Rightarrow> real" where
  "pow2 e = (if 0 \<le> e then 2 ^ nat e else 1 / 2 ^ nat (- e))"

definition binade :: "real \<Rightarrow> int" where
  "binade x = (if 1 \<le> x then bitlen \<lfloor>x\<rfloor> - 1 else - bitlen (\<lceil>1 / x\<rceil> - 1))"

text \<open>
  The result of every float operation is the exact result rounded to the nearest double, a
  tie to the one with an even significand. Around \<open>x\<close> the doubles are the multiples of
  \<open>pow2 q\<close>, where \<open>q\<close> leaves 53 significant bits and is at least -1074 (the
  subnormal numbers). A rounded result of magnitude \<open>pow2 1024\<close> or more is an infinity.
\<close>

definition ulp_exponent :: "real \<Rightarrow> int" where
  "ulp_exponent x = max (binade \<bar>x\<bar> - 52) (- 1074)"

definition nearest_double :: "real \<Rightarrow> real" where
  "nearest_double x =
     (if x = 0 then 0
      else of_int (round_half_even (x / pow2 (ulp_exponent x))) * pow2 (ulp_exponent x))"

definition to_double :: "real \<Rightarrow> pyfloat" where
  "to_double x =
     (let y = nearest_double x
      in if pow2 1024 \<le> y then Infinity False
         else if y \<le> - pow2 1024 then Infinity True
         else Finite y)"

text \<open>The conversion of an \<^verbatim>\<open>int\<close> operand of a float operation, which raises when the
  integer is too large for a float.\<close>

definition float_of_int :: "int \<Rightarrow> error + pyfloat" where
  "float_of_int n =
     (case to_double (of_int n) of
        Finite x \<Rightarrow> Inr (Finite x)
      | _ \<Rightarrow> Inl OverflowError)"

text \<open>\<^verbatim>\<open>a * b\<close>, \<^verbatim>\<open>a - b\<close> and \<^verbatim>\<open>a / b\<close> on floats.\<close>

fun float_mul :: "pyfloat \<Rightarrow> pyfloat \<Rightarrow> pyfloat" where
  "float_mul (Finite x) (Finite y) = to_double (x * y)"
| "float_mul (Finite x) (Infinity s) = (if x = 0 then NaN else Infinity (s \<noteq> (x < 0)))"
| "float_mul (Infinity s) (Finite y) = (if y = 0 then NaN else Infinity (s \<noteq> (y < 0)))"
| "float_mul (Infinity s) (Infinity t) = Infinity (s \<noteq> t)"
| "float_mul NaN b = NaN"
| "float_mul a NaN = NaN"

fun float_sub :: "pyfloat \<Rightarrow> pyfloat \<Rightarrow> pyfloat" where
  "float_sub (Finite x) (Finite y) = to_double (x - y)"
| "float_sub (Finite x) (Infinity s) = Infinity (\<not> s)"
| "float_sub (Infinity s) (Finite y) = Infinity s"
| "float_sub (Infinity s) (Infinity t) = (if s = t then NaN else Infinity s)"
| "float_sub NaN b = NaN"
| "float_sub a NaN = NaN"

fun float_div :: "pyfloat \<Rightarrow> pyfloat \<Rightarrow> error + pyfloat" where
  "float_div (Finite x) (Finite y) =
     (if y = 0 then Inl ZeroDivisionError else Inr (to_double (x / y)))"
| "float_div (Finite x) (Infinity s) = Inr (Finite 0)"
| "float_div (Infinity s) (Finite y) =
     (if y = 0 then Inl ZeroDivisionError else Inr (Infinity (s \<noteq> (y < 0))))"
| "float_div (Infinity s) (Infinity t) = Inr NaN"
| "float_div NaN (Finite y) = (if y = 0 then Inl ZeroDivisionError else Inr NaN)"
| "float_div NaN (Infinity t) = Inr NaN"
| "float_div a NaN = Inr NaN"

text \<open>\<^verbatim>\<open>round(x)\<close> of a float: the nearest integer, a tie to the even one; it raises on an
  infinity and on a NaN.\<close>

definition py_round :: "pyfloat \<Rightarrow> error + int" where
  "py_round x =
     (case x of
        Finite v \<Rightarrow> Inr (round_half_even v)
      | Infinity s \<Rightarrow> Inl OverflowError
      | NaN \<Rightarrow> Inl ValueError)"

subsection \<open>The catalogue: \<^verbatim>\<open>Primary_sounds\<close>\<close>

record sound =
  instrument_family :: string
  sound_note :: string

type_synonym catalog = "sound list"

type_synonym family_dict = "(string \<times> nat) list"

text \<open>The counting idiom
  \<^verbatim>\<open>if family in count: count[family] += 1 else: count[family] = 1\<close>
  on a dictionary in insertion order.\<close>

fun count_family :: "family_dict \<Rightarrow> string \<Rightarrow> family_dict" where
  "count_family [] fam = [(fam, 1)]"
| "count_family ((k, c) # d) fam =
     (if k = fam then (k, c + 1) # d else (k, c) # count_family d fam)"

text \<open>\<^verbatim>\<open>count[family] = v\<close>.\<close>

fun dict_set :: "family_dict \<Rightarrow> string \<Rightarrow> nat \<Rightarrow> family_dict" where
  "dict_set [] fam v = [(fam, v)]"
| "dict_set ((k, c) # d) fam v =
     (if k = fam then (k, v) # d else (k, c) # dict_set d fam v)"

text \<open>\<^verbatim>\<open>Primary_sounds.__init__\<close>: the number of sounds, the sounds of each family,
  the families (the keys, in order of first occurrence) and their number.\<close>

definition nb_sounds :: "catalog \<Rightarrow> int" where
  "nb_sounds cat = int (length cat)"

definition families_count :: "catalog \<Rightarrow> family_dict" where
  "families_count cat = foldl (\<lambda>d s. count_family d (instrument_family s)) [] cat"

definition families :: "catalog \<Rightarrow> string list" where
  "families cat = map fst (families_count cat)"

definition nb_families :: "catalog \<Rightarrow> nat" where
  "nb_families cat = length (families cat)"

text \<open>\<^verbatim>\<open>Primary_sounds.get\<close>.\<close>

definition get_sound :: "catalog \<Rightarrow> int \<Rightarrow> error + sound" where
  "get_sound cat i = py_index cat i"

text \<open>The first loop of \<^verbatim>\<open>ids_to_families_count\<close>: one count per family of the ids,
  raising on an id outside the catalogue.\<close>

fun count_ids :: "catalog \<Rightarrow> int list \<Rightarrow> family_dict \<Rightarrow> error + family_dict" where
  "count_ids cat [] cnt = Inr cnt"
| "count_ids cat (i # ids) cnt =
     (case py_index cat i of
        Inl e \<Rightarrow> Inl e
      | Inr s \<Rightarrow> count_ids cat ids (count_family cnt (instrument_family s)))"

text \<open>
  \<^verbatim>\<open>ids_to_families_count\<close>. The families absent from the ids are a Python
  \<^verbatim>\<open>set\<close>, whose iteration order is not fixed by the language (it follows the string
  hashes, which differ from one interpreter run to the next). The parameter
  \<open>set_order\<close> is that order: it rearranges the absent families, listed in catalogue order.
\<close>

definition ids_to_families_count ::
  "(string list \<Rightarrow> string list) \<Rightarrow> catalog \<Rightarrow> int list \<Rightarrow> error + family_dict \<times> nat" where
  "ids_to_families_count set_order cat id_list =
     (case count_ids cat id_list [] of
        Inl e \<Rightarrow> Inl e
      | Inr cnt \<Rightarrow>
          (let non_empty_families = map fst cnt;
               non_empty_families_count = length non_empty_families;
               empty_families =
                 set_order (filter (\<lambda>fam. fam \<notin> set non_empty_families) (families cat))
           in Inr (foldl (\<lambda>d fam. dict_set d fam 0) cnt empty_families,
                   non_empty_families_count)))"

subsection \<open>The constraints and the two validations\<close>

record constraints =
  min_nb_families :: int
  min_objects_per_family :: int
  min_nb_families_subject_to_min_objects_per_family :: int

text \<open>The loop of \<^verbatim>\<open>validate_final\<close> over \<^verbatim>\<open>families_count.values()\<close>, with its
  \<^verbatim>\<open>break\<close>; the accumulator is \<^verbatim>\<open>nb_families_meet_requirements\<close>.\<close>

fun meet_requirements :: "constraints \<Rightarrow> nat list \<Rightarrow> int \<Rightarrow> int" where
  "meet_requirements cons [] nb = nb"
| "meet_requirements cons (c # cs) nb =
     (let nb' = (if min_objects_per_family cons \<le> int c then nb + 1 else nb)
      in if min_nb_families_subject_to_min_objects_per_family cons \<le> nb' then nb'
         else meet_requirements cons cs nb')"

definition validate_final ::
  "(string list \<Rightarrow> string list) \<Rightarrow> catalog \<Rightarrow> constraints \<Rightarrow> int list \<Rightarrow> error + bool" where
  "validate_final set_order cat cons state =
     (case ids_to_families_count set_order cat state of
        Inl e \<Rightarrow> Inl e
      | Inr (fam_count, nb_fam) \<Rightarrow>
          if int nb_fam < min_nb_families cons then Inr False
          else if meet_requirements cons (map snd fam_count) 0
                    < min_nb_families_subject_to_min_objects_per_family cons
               then Inr False
               else Inr True)"

definition validate_intermediate ::
  "(string list \<Rightarrow> string list) \<Rightarrow> catalog \<Rightarrow> constraints \<Rightarrow> int \<Rightarrow> int list \<Rightarrow> int
     \<Rightarrow> error + bool" where
  "validate_intermediate set_order cat cons nb_objects_per_scene state current_level =
     (let nb_level_to_go = nb_objects_per_scene - current_level - 1
      in case ids_to_families_count set_order cat state of
           Inl e \<Rightarrow> Inl e
         | Inr (fam_count, current_nb_families) \<Rightarrow>
             if int current_nb_families < min_nb_families cons
                \<and> nb_level_to_go < min_nb_families cons - int current_nb_families
             then Inr False
             else
               (let valid = filter (\<lambda>(fam, c). min_objects_per_family cons \<le> int c) fam_count;
                    nb_valid_families = int (length valid);
                    nb_missing_families =
                      min_nb_families_subject_to_min_objects_per_family cons - nb_valid_families
                in if nb_level_to_go < nb_missing_families then Inr False
                   else if nb_level_to_go < nb_missing_families * min_objects_per_family cons
                        then Inr False
                        else Inr True))"


subsection \<open>The random module\<close>

text \<open>
  The state of Python's global generator is the position \<open>pos\<close> in a sequence
  \<open>rnd\<close> of raw draws, which the seed fixes. \<^verbatim>\<open>random.randint(a, b)\<close> raises on an
  empty range and otherwise reduces the next raw draw to the range; \<^verbatim>\<open>random.shuffle\<close>
  swaps each position, from the last one down, with a drawn position not above it.
\<close>

definition randint :: "(nat \<Rightarrow> nat) \<Rightarrow> nat \<Rightarrow> int \<Rightarrow> int \<Rightarrow> error + int \<times> nat" where
  "randint rnd pos a b =
     (if b < a then Inl ValueError
      else Inr (a + int (rnd pos mod nat (b - a + 1)), Suc pos))"

fun shuffle_from :: "(nat \<Rightarrow> nat) \<Rightarrow> nat \<Rightarrow> 'a list \<Rightarrow> nat \<Rightarrow> 'a list \<times> nat" where
  "shuffle_from rnd 0 xs pos = (xs, pos)"
| "shuffle_from rnd (Suc i) xs pos =
     (let j = rnd pos mod Suc (Suc i)
      in shuffle_from rnd i (xs[Suc i := xs ! j, j := xs ! Suc i]) (Suc pos))"

definition shuffle :: "(nat \<Rightarrow> nat) \<Rightarrow> 'a list \<Rightarrow> nat \<Rightarrow> 'a list \<times> nat" where
  "shuffle rnd xs pos = shuffle_from rnd (length xs - 1) xs pos"

subsection \<open>Drawing a candidate: \<^verbatim>\<open>Primary_sounds.next_id\<close>\<close>

text \<open>The \<^verbatim>\<open>while\<close> loop of \<^verbatim>\<open>next_id\<close> draws again as long as the drawn id is in
  the state or among the siblings. It need not end: \<open>None\<close> is the run that never returns.\<close>

partial_function (option) next_id_loop ::
  "(nat \<Rightarrow> nat) \<Rightarrow> catalog \<Rightarrow> int list \<Rightarrow> int \<Rightarrow> nat \<Rightarrow> (error + int \<times> nat) option" where
  "next_id_loop rnd cat state_and_siblings gen_index pos =
     (if gen_index \<in> set state_and_siblings then
        (case randint rnd pos 0 (nb_sounds cat - 1) of
           Inl e \<Rightarrow> Some (Inl e)
         | Inr (g, pos') \<Rightarrow> next_id_loop rnd cat state_and_siblings g pos')
      else Some (Inr (gen_index, pos)))"

declare next_id_loop.simps [code]

definition next_id ::
  "(nat \<Rightarrow> nat) \<Rightarrow> catalog \<Rightarrow> nat \<Rightarrow> int list \<Rightarrow> int list \<Rightarrow> (error + int \<times> nat) option" where
  "next_id rnd cat pos state siblings =
     (case randint rnd pos 0 (nb_sounds cat - 1) of
        Inl e \<Rightarrow> Some (Inl e)
      | Inr (g, pos') \<Rightarrow> next_id_loop rnd cat (remdups (state @ siblings)) g pos')"

subsection \<open>The generation tree: \<^verbatim>\<open>Node\<close>\<close>

record node =
  childs :: "nat list"
  level :: int
  sound_id :: int
  overlapping_last :: bool
  parent :: "nat option"

definition new_node :: "nat option \<Rightarrow> int \<Rightarrow> int \<Rightarrow> node" where
  "new_node par lvl sid =
     \<lparr>childs = [], level = lvl, sound_id = sid, overlapping_last = False, parent = par\<rparr>"

text \<open>\<^verbatim>\<open>Node.add_child\<close>: the new node is allocated at the end of the arena and its
  reference appended to the children of \<open>self\<close>.\<close>

definition add_child :: "node list \<Rightarrow> nat \<Rightarrow> int \<Rightarrow> node list \<times> nat" where
  "add_child arena self sid =
     (let new_child = new_node (Some self) (level (arena ! self) + 1) sid;
          ref = length arena
      in ((arena @ [new_child])[self := (arena ! self)\<lparr>childs := childs (arena ! self) @ [ref]\<rparr>],
          ref))"

definition get_childs_ids :: "node list \<Rightarrow> nat \<Rightarrow> int list" where
  "get_childs_ids arena self = map (\<lambda>c. sound_id (arena ! c)) (childs (arena ! self))"

subsection \<open>The search: \<^verbatim>\<open>Scene_generator._generate_scenes_idx\<close>\<close>

record scene_generator =
  nb_objects_per_scene :: int
  nb_tree_branch :: int
  primary_sounds :: catalog
  gen_constraints :: constraints

text \<open>What a run takes from outside the program: the raw draws of the generator and the
  iteration order of string sets.\<close>

record environment =
  rnd :: "nat \<Rightarrow> nat"
  set_order :: "string list \<Rightarrow> string list"

text \<open>The local variables of \<^verbatim>\<open>_generate_scenes_idx\<close>, with the arena of the nodes
  created so far and the position of the random generator.\<close>

record search =
  arena :: "node list"
  next_node :: "nat option"
  state :: "int list"
  generated_scenes :: "int list list"
  start_index :: int
  continue_work :: bool
  rng_pos :: nat

text \<open>\<^verbatim>\<open>nb_to_generate and scene_index >= nb_to_generate\<close>: neither \<^verbatim>\<open>None\<close> nor
  \<open>0\<close> is a limit.\<close>

definition limit_reached :: "int option \<Rightarrow> int \<Rightarrow> bool" where
  "limit_reached nb_to_generate scene_index =
     (case nb_to_generate of None \<Rightarrow> False | Some n \<Rightarrow> n \<noteq> 0 \<and> n \<le> scene_index)"

text \<open>Lines 342 to 349: the drawn id is appended to the state and becomes a child of the
  current node; the search moves to the child unless the intermediate validation fails.\<close>

definition add_new_child ::
  "environment \<Rightarrow> scene_generator \<Rightarrow> search \<Rightarrow> nat \<Rightarrow> int \<Rightarrow> nat \<Rightarrow> error + search" where
  "add_new_child env gen s cur new_sound_id pos' =
     (let state' = state s @ [new_sound_id];
          (arena', child) = add_child (arena s) cur new_sound_id
      in case validate_intermediate (set_order env) (primary_sounds gen) (gen_constraints gen)
                (nb_objects_per_scene gen) state' (level (arena' ! child)) of
           Inl e \<Rightarrow> Inl e
         | Inr ok \<Rightarrow>
             if \<not> ok
             then Inr (s\<lparr>arena := arena', next_node := Some cur,
                         state := (if 0 < length state' then butlast state' else state'),
                         rng_pos := pos'\<rparr>)
             else Inr (s\<lparr>arena := arena', next_node := Some child, state := state',
                         rng_pos := pos'\<rparr>))"

text \<open>Lines 352 to 358: all the children of the current node are explored.\<close>

definition go_up_one_level :: "search \<Rightarrow> nat \<Rightarrow> search" where
  "go_up_one_level s cur =
     (case parent (arena s ! cur) of
        None \<Rightarrow> s\<lparr>next_node := None, continue_work := False\<rparr>
      | Some p \<Rightarrow>
          s\<lparr>next_node := Some p,
            state := (if 0 < length (state s) then butlast (state s) else state s)\<rparr>)"

text \<open>Lines 381 to 389: the inner loop that leaves every node whose children are all
  explored. The result is the new \<^verbatim>\<open>next_node\<close>, the state and \<^verbatim>\<open>continue_work\<close>.\<close>

function going_up ::
  "node list \<Rightarrow> int \<Rightarrow> nat \<Rightarrow> int list \<Rightarrow> error + nat option \<times> int list \<times> bool" where
  "going_up ar width nn st =
     (if width \<le> int (length (childs (ar ! nn))) then
        (case parent (ar ! nn) of
           None \<Rightarrow> Inr (None, st, False)
         | Some p \<Rightarrow>
             (case py_pop st of
                Inl e \<Rightarrow> Inl e
              | Inr st' \<Rightarrow> going_up ar width p st'))
      else Inr (Some nn, st, True))"
  by pat_completeness auto
termination
  by (relation "measure (\<lambda>(ar, width, nn, st). length st)")
     (auto simp: py_pop_def split: if_splits)

declare going_up.simps [simp del]

text \<open>Lines 363 to 389: the current node is at the bottom of the tree.\<close>

definition reached_bottom ::
  "environment \<Rightarrow> scene_generator \<Rightarrow> int option \<Rightarrow> search \<Rightarrow> nat \<Rightarrow> error + search" where
  "reached_bottom env gen nb_to_generate s cur =
     (case validate_final (set_order env) (primary_sounds gen) (gen_constraints gen) (state s) of
        Inl e \<Rightarrow> Inl e
      | Inr ok \<Rightarrow>
          if ok \<and> limit_reached nb_to_generate (start_index s)
          then Inr (s\<lparr>continue_work := False\<rparr>)
          else
            (let s1 = (if ok then s\<lparr>start_index := start_index s + 1,
                                     generated_scenes := generated_scenes s @ [state s]\<rparr>
                       else s)
             in case py_pop (state s1) of
                  Inl e \<Rightarrow> Inl e
                | Inr st \<Rightarrow>
                    (case parent (arena s1 ! cur) of
                       None \<Rightarrow> Inl AttributeError
                     | Some p \<Rightarrow>
                         (case going_up (arena s1) (nb_tree_branch gen) p st of
                            Inl e \<Rightarrow> Inl e
                          | Inr (nn, st', cw) \<Rightarrow>
                              Inr (s1\<lparr>next_node := nn, state := st', continue_work := cw\<rparr>)))))"

text \<open>One iteration of \<^verbatim>\<open>while continue_work\<close>.\<close>

definition step ::
  "environment \<Rightarrow> scene_generator \<Rightarrow> int option \<Rightarrow> search \<Rightarrow> (error + search) option" where
  "step env gen nb_to_generate s =
     (case next_node s of
        None \<Rightarrow> Some (Inl AttributeError)
      | Some cur \<Rightarrow>
          if level (arena s ! cur) < nb_objects_per_scene gen - 1 then
            if int (length (childs (arena s ! cur))) < nb_tree_branch gen then
              (case next_id (rnd env) (primary_sounds gen) (rng_pos s) (state s)
                      (get_childs_ids (arena s) cur) of
                 None \<Rightarrow> None
               | Some (Inl e) \<Rightarrow> Some (Inl e)
               | Some (Inr (new_sound_id, pos')) \<Rightarrow>
                   Some (add_new_child env gen s cur new_sound_id pos'))
            else Some (Inr (go_up_one_level s cur))
          else Some (reached_bottom env gen nb_to_generate s cur))"

partial_function (option) search_loop ::
  "environment \<Rightarrow> scene_generator \<Rightarrow> int option \<Rightarrow> search \<Rightarrow> (error + search) option" where
  "search_loop env gen nb_to_generate s =
     (if continue_work s then
        (case step env gen nb_to_generate s of
           None \<Rightarrow> None
         | Some (Inl e) \<Rightarrow> Some (Inl e)
         | Some (Inr s') \<Rightarrow> search_loop env gen nb_to_generate s')
      else Some (Inr s))"

declare search_loop.simps [code]

text \<open>The state before the first iteration: the root \<^verbatim>\<open>Node(None, -1, -1)\<close> alone.
  (The callers of this repository never pass a \<^verbatim>\<open>root_node\<close>.)\<close>

definition initial_search :: "int \<Rightarrow> nat \<Rightarrow> search" where
  "initial_search start pos =
     \<lparr>arena = [new_node None (- 1) (- 1)], next_node = Some 0, state = [],
      generated_scenes = [], start_index = start, continue_work = True, rng_pos = pos\<rparr>"

text \<open>The result is the list of scenes, with the position the generator is left at.\<close>

definition generate_scenes_idx ::
  "environment \<Rightarrow> scene_generator \<Rightarrow> int \<Rightarrow> int option \<Rightarrow> nat
     \<Rightarrow> (error + int list list \<times> nat) option" where
  "generate_scenes_idx env gen start nb_to_generate pos =
     (case search_loop env gen nb_to_generate (initial_search start pos) of
        None \<Rightarrow> None
      | Some (Inl e) \<Rightarrow> Some (Inl e)
      | Some (Inr s) \<Rightarrow> Some (Inr (generated_scenes s, rng_pos s)))"


subsection \<open>The three splits: \<^verbatim>\<open>Scene_generator.generate\<close>\<close>

record scene =
  objects :: "sound list"
  before :: "int list list"
  after :: "int list list"
  split :: string
  image_index :: nat
  image_filename :: string

text \<open>\<^verbatim>\<open>_generate_relationships\<close>: the loop over \<^verbatim>\<open>range(0, nb_objects_per_scene)\<close>
  carries \<^verbatim>\<open>before\<close>, \<^verbatim>\<open>scene_indexes\<close> and \<^verbatim>\<open>after\<close>.\<close>

definition relationships_step ::
  "int list list \<times> int list \<times> int list list \<Rightarrow> int \<Rightarrow> int list list \<times> int list \<times> int list list" where
  "relationships_step acc i =
     (case acc of (bef, scene_indexes, aft) \<Rightarrow>
        (let bef' = (if 0 \<le> i - 1 then bef @ [bef ! nat (i - 1) @ [i - 1]] else bef);
             scene_indexes' = remove1 i scene_indexes
         in (bef', scene_indexes', aft @ [scene_indexes'])))"

definition generate_relationships :: "scene_generator \<Rightarrow> int list list \<times> int list list" where
  "generate_relationships gen =
     (case foldl relationships_step ([[]], [0 .. nb_objects_per_scene gen - 1], [])
             [0 .. nb_objects_per_scene gen - 1] of
        (bef, scene_indexes, aft) \<Rightarrow> (bef, aft))"

text \<open>\<^verbatim>\<open>"AQA_%s_%06d.png" % (split, index)\<close>.\<close>

fun decimal :: "nat \<Rightarrow> string" where
  "decimal n = (if n < 10 then [char_of (48 + n)]
                else decimal (n div 10) @ [char_of (48 + n mod 10)])"

definition filename_of :: "string \<Rightarrow> nat \<Rightarrow> string" where
  "filename_of spl idx =
     ''AQA_'' @ spl @ ''_'' @ replicate (6 - length (decimal idx)) CHR ''0'' @ decimal idx
       @ ''.png''"

fun scene_composition :: "catalog \<Rightarrow> int list \<Rightarrow> error + sound list" where
  "scene_composition cat [] = Inr []"
| "scene_composition cat (sound_idx # sounds_idx) =
     (case get_sound cat sound_idx of
        Inl e \<Rightarrow> Inl e
      | Inr primary_sound \<Rightarrow>
          (case scene_composition cat sounds_idx of
             Inl e \<Rightarrow> Inl e
           | Inr composition \<Rightarrow> Inr (primary_sound # composition)))"

definition make_scene :: "scene_generator \<Rightarrow> sound list \<Rightarrow> string \<Rightarrow> nat \<Rightarrow> scene" where
  "make_scene gen composition spl idx =
     \<lparr>objects = composition, before = fst (generate_relationships gen),
      after = snd (generate_relationships gen), split = spl, image_index = idx,
      image_filename = filename_of spl idx\<rparr>"

text \<open>The variables of the loop over the scenes, which are also what \<^verbatim>\<open>generate\<close>
  returns (the \<^verbatim>\<open>info\<close> sections, which hold the date, are left out).\<close>

record partition =
  training_scenes :: "scene list"
  valid_scenes :: "scene list"
  test_scenes :: "scene list"
  training_index :: nat
  valid_index :: nat
  test_index :: nat
  scene_count :: nat

definition empty_partition :: partition where
  "empty_partition =
     \<lparr>training_scenes = [], valid_scenes = [], test_scenes = [],
      training_index = 0, valid_index = 0, test_index = 0, scene_count = 0\<rparr>"

fun label_scenes ::
  "scene_generator \<Rightarrow> int \<Rightarrow> int \<Rightarrow> int list list \<Rightarrow> partition \<Rightarrow> error + partition" where
  "label_scenes gen nb_training nb_valid [] acc = Inr acc"
| "label_scenes gen nb_training nb_valid (sounds_idx # rest) acc =
     (case scene_composition (primary_sounds gen) sounds_idx of
        Inl e \<Rightarrow> Inl e
      | Inr composition \<Rightarrow>
          if int (scene_count acc) < nb_training then
            label_scenes gen nb_training nb_valid rest
              (acc\<lparr>training_scenes :=
                      training_scenes acc @ [make_scene gen composition ''train'' (training_index acc)],
                    training_index := training_index acc + 1,
                    scene_count := scene_count acc + 1\<rparr>)
          else if int (scene_count acc) < nb_training + nb_valid then
            label_scenes gen nb_training nb_valid rest
              (acc\<lparr>valid_scenes :=
                      valid_scenes acc @ [make_scene gen composition ''val'' (valid_index acc)],
                    valid_index := valid_index acc + 1,
                    scene_count := scene_count acc + 1\<rparr>)
          else
            label_scenes gen nb_training nb_valid rest
              (acc\<lparr>test_scenes :=
                      test_scenes acc @ [make_scene gen composition ''test'' (test_index acc)],
                    test_index := test_index acc + 1,
                    scene_count := scene_count acc + 1\<rparr>))"

text \<open>\<^verbatim>\<open>nb_training = round(nb_scene*training_set_ratio)\<close>: the number of scenes is
  converted to a float, and the product is rounded twice, to a float and to an integer.\<close>

definition nb_training_of :: "nat \<Rightarrow> pyfloat \<Rightarrow> error + int" where
  "nb_training_of nb_scene training_set_ratio =
     (case float_of_int (int nb_scene) of
        Inl e \<Rightarrow> Inl e
      | Inr n \<Rightarrow> py_round (float_mul n training_set_ratio))"

text \<open>\<^verbatim>\<open>valid_and_test_ratio = (1.0 - training_set_ratio) / 2\<close> and
  \<^verbatim>\<open>nb_valid = round(nb_scene*valid_and_test_ratio)\<close>.\<close>

definition nb_valid_of :: "nat \<Rightarrow> pyfloat \<Rightarrow> error + int" where
  "nb_valid_of nb_scene training_set_ratio =
     (case float_div (float_sub (Finite 1) training_set_ratio) (Finite 2) of
        Inl e \<Rightarrow> Inl e
      | Inr valid_and_test_ratio \<Rightarrow>
          (case float_of_int (int nb_scene) of
             Inl e \<Rightarrow> Inl e
           | Inr n \<Rightarrow> py_round (float_mul n valid_and_test_ratio)))"


text \<open>The part of \<^verbatim>\<open>generate\<close> after the search.\<close>

definition split_scenes ::
  "environment \<Rightarrow> scene_generator \<Rightarrow> pyfloat \<Rightarrow> bool \<Rightarrow> int list list \<Rightarrow> nat
     \<Rightarrow> error + partition" where
  "split_scenes env gen training_set_ratio shuffle_scenes scenes_sounds_idx pos =
     (let shuffled = (if shuffle_scenes then fst (shuffle (rnd env) scenes_sounds_idx pos)
                      else scenes_sounds_idx);
          nb_scene = length shuffled
      in case nb_training_of nb_scene training_set_ratio of
           Inl e \<Rightarrow> Inl e
         | Inr nb_training \<Rightarrow>
             (case nb_valid_of nb_scene training_set_ratio of
                Inl e \<Rightarrow> Inl e
              | Inr nb_valid \<Rightarrow>
                  label_scenes gen nb_training nb_valid shuffled empty_partition))"

definition generate ::
  "environment \<Rightarrow> scene_generator \<Rightarrow> int \<Rightarrow> int option \<Rightarrow> pyfloat \<Rightarrow> bool \<Rightarrow> nat
     \<Rightarrow> (error + partition) option" where
  "generate env gen start nb_to_generate training_set_ratio shuffle_scenes pos =
     (case generate_scenes_idx env gen start nb_to_generate pos of
        None \<Rightarrow> None
      | Some (Inl e) \<Rightarrow> Some (Inl e)
      | Some (Inr (scenes_sounds_idx, pos')) \<Rightarrow>
          Some (split_scenes env gen training_set_ratio shuffle_scenes scenes_sounds_idx pos'))"

subsection \<open>The command line: \<^verbatim>\<open>__main__\<close>\<close>

record args =
  max_nb_scene :: "int option"
  scene_length :: int
  tree_width :: int
  constraint_min_nb_families :: int
  constraint_min_object_per_family :: int
  constraint_min_nb_families_subject_to_min_object_per_family :: int
  training_set_ratio :: pyfloat
  random_nb_generator_seed :: "int option"

text \<open>\<^verbatim>\<open>Scene_generator.__init__\<close>, on the catalogue loaded from the sounds folder.\<close>

definition Scene_generator :: "int \<Rightarrow> int \<Rightarrow> catalog \<Rightarrow> int \<Rightarrow> int \<Rightarrow> int \<Rightarrow> scene_generator" where
  "Scene_generator nb_objects nb_branch cat c_min_nb_families c_min_objects_per_family
       c_min_nb_families_subject =
     \<lparr>nb_objects_per_scene = nb_objects, nb_tree_branch = nb_branch, primary_sounds = cat,
      gen_constraints =
        \<lparr>min_nb_families = c_min_nb_families,
         min_objects_per_family = c_min_objects_per_family,
         min_nb_families_subject_to_min_objects_per_family = c_min_nb_families_subject\<rparr>\<rparr>"

text \<open>
  The main program. \<open>seeded\<close> is the generator algorithm: the raw draws that follow
  \<^verbatim>\<open>random.seed(n)\<close>. Without a seed the draws are those of the environment.
\<close>

definition main ::
  "(int \<Rightarrow> nat \<Rightarrow> nat) \<Rightarrow> environment \<Rightarrow> catalog \<Rightarrow> args \<Rightarrow> (error + partition) option" where
  "main seeded env cat a =
     (let env' = (case random_nb_generator_seed a of
                    None \<Rightarrow> env
                  | Some n \<Rightarrow> env\<lparr>rnd := seeded n\<rparr>);
          scene_gen = Scene_generator (scene_length a) (tree_width a) cat
                        (constraint_min_nb_families a) (constraint_min_object_per_family a)
                        (constraint_min_nb_families_subject_to_min_object_per_family a)
      in generate env' scene_gen 0 (max_nb_scene a) (training_set_ratio a) True 0)"


subsection \<open>Notions used to state the properties\<close>

text \<open>An id that \<^verbatim>\<open>self.definition[id]\<close> accepts, and the family it yields.\<close>

definition valid_id :: "catalog \<Rightarrow> int \<Rightarrow> bool" where
  "valid_id cat i \<longleftrightarrow> - int (length cat) \<le> i \<and> i < int (length cat)"

definition family_of :: "catalog \<Rightarrow> int \<Rightarrow> string" where
  "family_of cat i =
     instrument_family (cat ! nat (if i < 0 then int (length cat) + i else i))"

definition state_families :: "catalog \<Rightarrow> int list \<Rightarrow> string list" where
  "state_families cat st = map (family_of cat) st"

text \<open>An iteration order of sets lists every element once.\<close>

definition is_reordering :: "(string list \<Rightarrow> string list) \<Rightarrow> bool" where
  "is_reordering ord \<longleftrightarrow> (\<forall>xs. mset (ord xs) = mset xs)"

definition tally :: "family_dict \<Rightarrow> string \<Rightarrow> nat" where
  "tally d fam = (case map_of d fam of None \<Rightarrow> 0 | Some c \<Rightarrow> c)"

text \<open>
  Final validation in the words of the specification: (a) the number of distinct families
  occurring in the state is at least \<open>min_nb_families\<close>, and (b) the number of families
  of the catalogue whose number of occurrences in the state is at least
  \<open>min_objects_per_family\<close> is at least
  \<open>min_nb_families_subject_to_min_objects_per_family\<close>.
\<close>

definition nb_distinct_families :: "catalog \<Rightarrow> int list \<Rightarrow> nat" where
  "nb_distinct_families cat st = length (remdups (state_families cat st))"

definition nb_families_meeting_quota :: "catalog \<Rightarrow> constraints \<Rightarrow> int list \<Rightarrow> nat" where
  "nb_families_meeting_quota cat cons st =
     length (filter (\<lambda>fam. min_objects_per_family cons
                              \<le> int (count_list (state_families cat st) fam))
               (remdups (map instrument_family cat)))"

definition spec_validate_final :: "catalog \<Rightarrow> constraints \<Rightarrow> int list \<Rightarrow> bool" where
  "spec_validate_final cat cons st \<longleftrightarrow>
     min_nb_families cons \<le> int (nb_distinct_families cat st)
     \<and> min_nb_families_subject_to_min_objects_per_family cons
          \<le> int (nb_families_meeting_quota cat cons st)"

text \<open>Small catalogues and an environment, for concrete runs.\<close>

definition a_sound :: "string \<Rightarrow> sound" where
  "a_sound fam = \<lparr>instrument_family = fam, sound_note = fam\<rparr>"

definition catalog_abc :: catalog where
  "catalog_abc = [a_sound ''A'', a_sound ''B'', a_sound ''C'']"

definition catalog_aabb :: catalog where
  "catalog_aabb = [a_sound ''A'', a_sound ''A'', a_sound ''B'', a_sound ''B'']"

definition counting_env :: environment where
  "counting_env = \<lparr>rnd = (\<lambda>i. i), set_order = (\<lambda>xs. xs)\<rparr>"

text \<open>The ids \<^verbatim>\<open>next_id\<close> may return, and the id that \<^verbatim>\<open>randint(0, nb_sounds - 1)\<close>
  yields at a position of the generator.\<close>

definition eligible :: "catalog \<Rightarrow> int list \<Rightarrow> int list \<Rightarrow> int \<Rightarrow> bool" where
  "eligible cat st siblings g \<longleftrightarrow>
     0 \<le> g \<and> g < nb_sounds cat \<and> g \<notin> set st \<and> g \<notin> set siblings"

definition draw :: "(nat \<Rightarrow> nat) \<Rightarrow> catalog \<Rightarrow> nat \<Rightarrow> int" where
  "draw r cat pos = int (r pos mod length cat)"

definition covered :: "catalog \<Rightarrow> int list \<Rightarrow> int list \<Rightarrow> bool" where
  "covered cat st siblings \<longleftrightarrow> (\<forall>g. \<not> eligible cat st siblings g)"

text \<open>The states of the search that a run passes through, one per iteration of
  \<^verbatim>\<open>while continue_work\<close>, from a first state \<open>s0\<close>.\<close>

inductive reachable ::
  "environment \<Rightarrow> scene_generator \<Rightarrow> int option \<Rightarrow> search \<Rightarrow> search \<Rightarrow> bool"
  for env gen nb_to_generate s0 where
  reachable_start: "reachable env gen nb_to_generate s0 s0"
| reachable_step:
    "reachable env gen nb_to_generate s0 s \<Longrightarrow> continue_work s \<Longrightarrow>
     step env gen nb_to_generate s = Some (Inr s') \<Longrightarrow>
     reachable env gen nb_to_generate s0 s'"

text \<open>The first \<open>n\<close> iterations of the loop, for concrete runs.\<close>

fun iterate_steps ::
  "environment \<Rightarrow> scene_generator \<Rightarrow> int option \<Rightarrow> nat \<Rightarrow> search \<Rightarrow> (error + search) option" where
  "iterate_steps env gen nb_to_generate 0 s = Some (Inr s)"
| "iterate_steps env gen nb_to_generate (Suc n) s =
     (if continue_work s then
        (case step env gen nb_to_generate s of
           None \<Rightarrow> None
         | Some (Inl e) \<Rightarrow> Some (Inl e)
         | Some (Inr s') \<Rightarrow> iterate_steps env gen nb_to_generate n s')
      else Some (Inr s))"

text \<open>The tree of the arena: every node but the root (reference 0) has a parent, allocated
  before it and one level above it.\<close>

definition wf_arena :: "node list \<Rightarrow> bool" where
  "wf_arena ar \<longleftrightarrow>
     ar \<noteq> [] \<and>
     (\<forall>h<length ar. - 1 \<le> level (ar ! h) \<and>
        (case parent (ar ! h) of
           None \<Rightarrow> h = 0
         | Some p \<Rightarrow> p < h \<and> level (ar ! p) + 1 = level (ar ! h)))"

text \<open>The state is the path to the node \<open>c\<close>, which is not below the last level.\<close>

definition on_path :: "int \<Rightarrow> node list \<Rightarrow> nat \<Rightarrow> int list \<Rightarrow> bool" where
  "on_path nb_objects ar c st \<longleftrightarrow>
     c < length ar \<and> int (length st) = level (ar ! c) + 1
     \<and> (level (ar ! c) \<le> nb_objects - 1 \<or> st = [])"

definition search_inv :: "scene_generator \<Rightarrow> search \<Rightarrow> bool" where
  "search_inv gen s \<longleftrightarrow>
     wf_arena (arena s)
     \<and> (continue_work s \<longrightarrow>
          (\<exists>c. next_node s = Some c \<and> on_path (nb_objects_per_scene gen) (arena s) c (state s)))
     \<and> distinct (state s)
     \<and> (\<forall>sc\<in>set (generated_scenes s).
           int (length sc) = nb_objects_per_scene gen \<and> distinct sc)"

text \<open>A generator of scenes of two sounds, two branches per node, which must span two
  families.\<close>

definition two_of_abc :: scene_generator where
  "two_of_abc = Scene_generator 2 2 catalog_abc 2 0 0"

text \<open>Scenes of two sounds of two families, from two sounds of A and two of B. With the
  draws 0, 1, ... the second draw (sound 1, of family A again) is rejected by the
  intermediate validation; \<open>after_rejection\<close> is the state the search is then in.\<close>

definition two_of_aabb :: scene_generator where
  "two_of_aabb = Scene_generator 2 2 catalog_aabb 2 0 0"

definition after_rejection :: search where
  "after_rejection =
     \<lparr>arena =
        [\<lparr>childs = [1], level = - 1, sound_id = - 1, overlapping_last = False, parent = None\<rparr>,
         \<lparr>childs = [2], level = 0, sound_id = 0, overlapping_last = False, parent = Some 0\<rparr>,
         \<lparr>childs = [], level = 1, sound_id = 1, overlapping_last = False, parent = Some 1\<rparr>],
      next_node = Some 1, state = [0], generated_scenes = [], start_index = 0,
      continue_work = True, rng_pos = 2\<rparr>"

definition before_rejection :: search where
  "before_rejection =
     \<lparr>arena =
        [\<lparr>childs = [1], level = - 1, sound_id = - 1, overlapping_last = False, parent = None\<rparr>,
         \<lparr>childs = [], level = 0, sound_id = 0, overlapping_last = False, parent = Some 0\<rparr>],
      next_node = Some 1, state = [0], generated_scenes = [], start_index = 0,
      continue_work = True, rng_pos = 1\<rparr>"

text \<open>Scenes of one sound that must span four families, from a catalogue of three.\<close>

definition four_families_of_abc :: scene_generator where
  "four_families_of_abc = Scene_generator 1 1 catalog_abc 4 0 0"

text \<open>Scenes of one sound, two branches at the root, no constraint; with a limit of one
  scene and the draws 0, 1, ... \<open>second_leaf\<close> is the state of the search at its second
  leaf, after the scene [0] has been emitted.\<close>

definition one_of_abc :: scene_generator where
  "one_of_abc = Scene_generator 1 2 catalog_abc 0 0 0"

definition second_leaf :: search where
  "second_leaf =
     \<lparr>arena =
        [\<lparr>childs = [1, 2], level = - 1, sound_id = - 1, overlapping_last = False,
          parent = None\<rparr>,
         \<lparr>childs = [], level = 0, sound_id = 0, overlapping_last = False, parent = Some 0\<rparr>,
         \<lparr>childs = [], level = 0, sound_id = 1, overlapping_last = False, parent = Some 0\<rparr>],
      next_node = Some 2, state = [1], generated_scenes = [[0]], start_index = 1,
      continue_work = True, rng_pos = 2\<rparr>"

text \<open>What is observed of a state in the concrete runs: the number of scenes emitted,
  \<^verbatim>\<open>continue_work\<close>, the number of nodes and the number of draws.\<close>

definition progress :: "(error + search) option \<Rightarrow> (error + nat \<times> bool \<times> nat \<times> nat) option" where
  "progress r =
     map_option (map_sum id
       (\<lambda>s. (length (generated_scenes s), continue_work s, length (arena s), rng_pos s))) r"

text \<open>
  For the intermediate validation of a state \<open>st\<close> at level \<open>d\<close>, with
  \<open>nb_objects - d - 1\<close> levels to go. Its first two tests reject when the families
  still missing, or the families still to reach the quota, outnumber the levels to go. Its
  third test counts a full quota of objects for each of the latter families; this is what
  they need when every family that occurs in the state has reached the quota already.
\<close>

definition lower_bound_tests_reject ::
  "catalog \<Rightarrow> constraints \<Rightarrow> int \<Rightarrow> int list \<Rightarrow> int \<Rightarrow> bool" where
  "lower_bound_tests_reject cat cons nb_objects st d \<longleftrightarrow>
     (int (nb_distinct_families cat st) < min_nb_families cons
      \<and> nb_objects - d - 1 < min_nb_families cons - int (nb_distinct_families cat st))
     \<or> nb_objects - d - 1
          < min_nb_families_subject_to_min_objects_per_family cons
              - int (nb_families_meeting_quota cat cons st)"

definition third_test_rejects ::
  "catalog \<Rightarrow> constraints \<Rightarrow> int \<Rightarrow> int list \<Rightarrow> int \<Rightarrow> bool" where
  "third_test_rejects cat cons nb_objects st d \<longleftrightarrow>
     nb_objects - d - 1
       < (min_nb_families_subject_to_min_objects_per_family cons
            - int (nb_families_meeting_quota cat cons st)) * min_objects_per_family cons"

definition quota_from_scratch :: "catalog \<Rightarrow> constraints \<Rightarrow> int list \<Rightarrow> bool" where
  "quota_from_scratch cat cons st \<longleftrightarrow>
     0 \<le> min_objects_per_family cons
     \<and> list_all (\<lambda>fam. min_objects_per_family cons
                          \<le> int (count_list (state_families cat st) fam))
          (state_families cat st)"

text \<open>The constraints of the counterexample to the third test: two families, each with
  two objects.\<close>

definition two_by_two :: constraints where
  "two_by_two =
     \<lparr>min_nb_families = 2, min_objects_per_family = 2,
      min_nb_families_subject_to_min_objects_per_family = 2\<rparr>"



text \<open>The unordered collection of the id sequences of a run.\<close>

definition scenes_multiset ::
  "(error + int list list \<times> nat) option \<Rightarrow> (error + int list multiset) option" where
  "scenes_multiset run = map_option (map_sum id (\<lambda>r. mset (fst r))) run"

text \<open>A command line with a seed and the ratio 0.7 (the float nearest to 7/10, the
  default of the parser), and a generator algorithm for the concrete runs: the
  draws after \<^verbatim>\<open>random.seed(n)\<close> count up from \<open>n\<close>.\<close>

definition seeded_args :: args where
  "seeded_args =
     \<lparr>max_nb_scene = None, scene_length = 2, tree_width = 2, constraint_min_nb_families = 2,
      constraint_min_object_per_family = 0,
      constraint_min_nb_families_subject_to_min_object_per_family = 0,
      training_set_ratio = to_double (7 / 10), random_nb_generator_seed = Some 0\<rparr>"

definition counting_from :: "int \<Rightarrow> nat \<Rightarrow> nat" where
  "counting_from n i = nat n + i"


section \<open>Properties of the catalogue and of the validations\<close>

lemma py_index_valid: "valid_id cat i \<Longrightarrow> \<exists>s. py_index cat i = Inr s \<and> instrument_family s = family_of cat i \<and> s \<in> set cat"
  unfolding valid_id_def py_index_def family_of_def by auto

lemma py_index_invalid: "\<not> valid_id cat i \<Longrightarrow> py_index cat i = Inl IndexError"
  unfolding valid_id_def py_index_def by auto

lemma keys_count_family: "map fst (count_family d f) = (if f \<in> set (map fst d) then map fst d else map fst d @ [f])"
  by (induction d f rule: count_family.induct) auto

lemma distinct_count_family: "distinct (map fst d) \<Longrightarrow> distinct (map fst (count_family d f))"
  by (simp add: keys_count_family)

lemma map_of_count_family:
  "map_of (count_family d f) = (map_of d)(f \<mapsto> (case map_of d f of None \<Rightarrow> 1 | Some c \<Rightarrow> c + 1))"
  by (induction d f rule: count_family.induct) (auto simp: fun_eq_iff)

lemma tally_count_family: "tally (count_family d f) g = (if g = f then tally d f + 1 else tally d g)"
  by (simp add: tally_def map_of_count_family split: option.splits)

lemma set_keys_count_family: "fst ` set (count_family d f) = insert f (fst ` set d)"
  using arg_cong[OF keys_count_family[of d f], of set] by (auto split: if_splits)

lemma foldl_count_family_keys:
  "fst ` set (foldl count_family d fs) = fst ` set d \<union> set fs"
  by (induction fs arbitrary: d) (simp_all add: set_keys_count_family)

lemma foldl_count_family_distinct:
  "distinct (map fst d) \<Longrightarrow> distinct (map fst (foldl count_family d fs))"
  by (induction fs arbitrary: d) (auto simp: distinct_count_family simp del: count_family.simps)

lemma foldl_count_family_tally:
  "tally (foldl count_family d fs) g = tally d g + count_list fs g"
  by (induction fs arbitrary: d) (auto simp: tally_count_family)

lemma count_ids_valid:
  "\<forall>i\<in>set ids. valid_id cat i \<Longrightarrow> count_ids cat ids d = Inr (foldl count_family d (map (family_of cat) ids))"
proof (induction ids arbitrary: d)
  case Nil then show ?case by simp
next
  case (Cons i ids)
  then obtain s where "py_index cat i = Inr s" "instrument_family s = family_of cat i"
    using py_index_valid[of cat i] by auto
  with Cons show ?case by simp
qed

lemma count_ids_invalid:
  "\<not> (\<forall>i\<in>set ids. valid_id cat i) \<Longrightarrow> count_ids cat ids d = Inl IndexError"
proof (induction ids arbitrary: d)
  case Nil then show ?case by simp
next
  case (Cons i ids)
  show ?case
  proof (cases "valid_id cat i")
    case True
    then obtain s where "py_index cat i = Inr s" using py_index_valid[of cat i] by auto
    with Cons True show ?thesis by simp
  next
    case False
    then show ?thesis by (simp add: py_index_invalid)
  qed
qed

lemma families_count_eq: "families_count cat = foldl count_family [] (map instrument_family cat)"
  unfolding families_count_def by (simp add: foldl_map)

lemma distinct_families: "distinct (families cat)"
  unfolding families_def families_count_eq by (rule foldl_count_family_distinct) simp

lemma set_families: "set (families cat) = instrument_family ` set cat"
  unfolding families_def families_count_eq by (simp add: foldl_count_family_keys)

lemma family_of_in_families: "valid_id cat i \<Longrightarrow> family_of cat i \<in> set (families cat)"
  using py_index_valid[of cat i] unfolding set_families by (metis imageI)

lemma dict_set_fresh: "f \<notin> fst ` set d \<Longrightarrow> dict_set d f v = d @ [(f, v)]"
  by (induction d f v rule: dict_set.induct) auto

lemma foldl_dict_set_fresh:
  "distinct es \<Longrightarrow> set es \<inter> fst ` set d = {} \<Longrightarrow>
   foldl (\<lambda>d fam. dict_set d fam v) d es = d @ map (\<lambda>fam. (fam, v)) es"
proof (induction es arbitrary: d)
  case Nil then show ?case by simp
next
  case (Cons e es)
  have "dict_set d e v = d @ [(e, v)]" using Cons.prems by (simp add: dict_set_fresh)
  moreover have "set es \<inter> fst ` set (d @ [(e, v)]) = {}" using Cons.prems by auto
  ultimately show ?case using Cons.IH[of "d @ [(e, v)]"] Cons.prems by simp
qed

lemma meet_requirements_less:
  "meet_requirements cons cs nb < min_nb_families_subject_to_min_objects_per_family cons \<longleftrightarrow>
   nb + int (length (filter (\<lambda>c. min_objects_per_family cons \<le> int c) cs))
     < min_nb_families_subject_to_min_objects_per_family cons"
proof (induction cs arbitrary: nb)
  case Nil
  show ?case by simp
next
  case (Cons c cs)
  define m where "m = min_nb_families_subject_to_min_objects_per_family cons"
  define k where "k = int (length (filter (\<lambda>c. min_objects_per_family cons \<le> int c) cs))"
  define nb' where "nb' = (if min_objects_per_family cons \<le> int c then nb + 1 else nb)"
  have k0: "0 \<le> k" by (simp add: k_def)
  have step: "meet_requirements cons (c # cs) nb = (if m \<le> nb' then nb' else meet_requirements cons cs nb')"
    by (simp add: m_def nb'_def Let_def)
  have len: "nb + int (length (filter (\<lambda>c. min_objects_per_family cons \<le> int c) (c # cs))) = nb' + k"
    by (simp add: nb'_def k_def)
  have ih: "meet_requirements cons cs nb' < m \<longleftrightarrow> nb' + k < m"
    using Cons.IH[of nb'] by (simp add: m_def k_def)
  show ?case unfolding len step m_def[symmetric] using ih k0 by auto
qed

lemma length_filter_mset: "mset xs = mset ys \<Longrightarrow> length (filter P xs) = length (filter P ys)"
  by (metis mset_filter size_mset)

lemma ids_to_families_count_invalid:
  "\<not> (\<forall>i\<in>set st. valid_id cat i) \<Longrightarrow> ids_to_families_count ord cat st = Inl IndexError"
  by (simp add: ids_to_families_count_def count_ids_invalid)

lemma ids_to_families_count_valid:
  assumes v: "\<forall>i\<in>set st. valid_id cat i" and r: "is_reordering ord"
  shows "\<exists>fc. ids_to_families_count ord cat st = Inr (fc, card (set (state_families cat st)))
           \<and> mset (map fst fc) = mset (families cat)
           \<and> (\<forall>(f, c) \<in> set fc. c = count_list (state_families cat st) f)"
proof -
  define fs where "fs = state_families cat st"
  define cnt where "cnt = foldl count_family [] fs"
  define es where "es = ord (filter (\<lambda>fam. fam \<notin> set (map fst cnt)) (families cat))"
  define fc where "fc = cnt @ map (\<lambda>fam. (fam, 0::nat)) es"
  have c: "count_ids cat st [] = Inr cnt"
    using count_ids_valid[OF v] by (simp add: state_families_def cnt_def fs_def)
  have keys: "fst ` set cnt = set fs" by (simp add: foldl_count_family_keys cnt_def)
  have dk: "distinct (map fst cnt)" unfolding cnt_def by (rule foldl_count_family_distinct) simp
  have sub: "set fs \<subseteq> set (families cat)"
    using v family_of_in_families by (auto simp: state_families_def fs_def)
  have mes: "mset es = mset (filter (\<lambda>fam. fam \<notin> set fs) (families cat))"
    using r keys by (simp add: is_reordering_def es_def)
  have ses: "set es = set (families cat) - set fs"
    using mset_eq_setD[OF mes] by auto
  have des: "distinct es"
  proof -
    have "distinct (filter (\<lambda>fam. fam \<notin> set fs) (families cat))"
      using distinct_families[of cat] by simp
    then show ?thesis using mset_eq_imp_distinct_iff[OF mes] by simp
  qed
  have disj: "set es \<inter> fst ` set cnt = {}" using ses keys by auto
  have fold: "foldl (\<lambda>d fam. dict_set d fam 0) cnt es = fc"
    unfolding fc_def by (rule foldl_dict_set_fresh[OF des disj])
  have res: "ids_to_families_count ord cat st = Inr (fc, length (map fst cnt))"
    unfolding ids_to_families_count_def c using fold by (simp add: Let_def es_def)
  have len: "length (map fst cnt) = card (set fs)"
    using distinct_card[OF dk] keys by simp
  have kfc: "map fst fc = map fst cnt @ es" by (simp add: fc_def comp_def)
  have "distinct (map fst fc)" unfolding kfc using dk des disj by auto
  moreover have "set (map fst fc) = set (families cat)" unfolding kfc using keys ses sub by auto
  ultimately have ms: "mset (map fst fc) = mset (families cat)"
    using distinct_families[of cat] set_eq_iff_mset_eq_distinct[of "map fst fc" "families cat"]
    by blast
  have vals: "\<forall>(f, c) \<in> set fc. c = count_list fs f"
  proof (clarify)
    fix f c assume "(f, c) \<in> set fc"
    then consider "(f, c) \<in> set cnt" | "f \<in> set es" "c = 0" unfolding fc_def by auto
    then show "c = count_list fs f"
    proof cases
      case 1
      then have "map_of cnt f = Some c" using dk by simp
      then have "tally cnt f = c" by (simp add: tally_def)
      moreover have "tally cnt f = tally [] f + count_list fs f"
        unfolding cnt_def by (rule foldl_count_family_tally)
      ultimately show ?thesis by (simp add: tally_def)
    next
      case 2
      then have "f \<notin> set fs" using ses by auto
      then show ?thesis using 2 by (simp add: count_list_0_iff)
    qed
  qed
  show ?thesis
  proof (intro exI conjI)
    show "ids_to_families_count ord cat st = Inr (fc, card (set (state_families cat st)))"
      using res len by (simp add: fs_def)
    show "mset (map fst fc) = mset (families cat)" by (rule ms)
    show "\<forall>(f, c) \<in> set fc. c = count_list (state_families cat st) f"
      using vals by (simp add: fs_def)
  qed
qed

lemma mset_families: "mset (families cat) = mset (remdups (map instrument_family cat))"
  using distinct_families[of cat] set_families[of cat]
    set_eq_iff_mset_eq_distinct[of "families cat" "remdups (map instrument_family cat)"]
  by simp

lemma histogram_values:
  assumes "\<forall>(f, c) \<in> set fc. c = g f"
  shows "map snd fc = map g (map fst fc)"
  using assms by (induction fc) auto

lemma quota_count:
  assumes ms: "mset (map fst fc) = mset (families cat)"
    and vals: "\<forall>(f, c) \<in> set fc. c = count_list (state_families cat st) f"
  shows "length (filter (\<lambda>c. min_objects_per_family cons \<le> int c) (map snd fc))
         = nb_families_meeting_quota cat cons st"
proof -
  let ?g = "count_list (state_families cat st)"
  let ?P = "\<lambda>c. min_objects_per_family cons \<le> int c"
  have "map snd fc = map ?g (map fst fc)" by (rule histogram_values[OF vals])
  then have "length (filter ?P (map snd fc)) = length (filter ?P (map ?g (map fst fc)))"
    by (rule arg_cong)
  also have "\<dots> = length (filter (?P \<circ> ?g) (map fst fc))"
    unfolding filter_map by (rule length_map)
  also have "\<dots> = length (filter (?P \<circ> ?g) (remdups (map instrument_family cat)))"
    by (rule length_filter_mset) (simp only: ms mset_families)
  finally show ?thesis by (simp add: nb_families_meeting_quota_def comp_def)
qed

lemma validate_final_histogram:
  assumes "ids_to_families_count ord cat st = Inr (fc, nb)"
  shows "validate_final ord cat cons st =
         Inr (min_nb_families cons \<le> int nb
              \<and> min_nb_families_subject_to_min_objects_per_family cons
                   \<le> int (length (filter (\<lambda>c. min_objects_per_family cons \<le> int c) (map snd fc))))"
  unfolding validate_final_def assms using meet_requirements_less[of cons "map snd fc" 0]
  by (simp add: not_less)

lemma is_reordering_id: "is_reordering (\<lambda>xs. xs)"
  by (simp add: is_reordering_def)

lemma valid_id_catalog_abc: "valid_id catalog_abc i \<longleftrightarrow> - 3 \<le> i \<and> i < 3"
  by (simp add: valid_id_def catalog_abc_def)

text \<open>
  Claim C2. For every state whose ids the catalogue accepts, \<^verbatim>\<open>validate_final\<close> returns
  \<^verbatim>\<open>True\<close> if and only if (a) the number of distinct families occurring in the state is
  at least \<open>min_nb_families\<close> and (b) the number of families whose number of occurrences
  in the state is at least \<open>min_objects_per_family\<close> is at least
  \<open>min_nb_families_subject_to_min_objects_per_family\<close>. The families of (b) are those of
  the catalogue. On an id outside the catalogue the function raises.
\<close>

theorem validate_final_iff_spec:
  assumes "is_reordering ord" and "\<forall>i\<in>set st. valid_id cat i"
  shows "validate_final ord cat cons st = Inr (spec_validate_final cat cons st)"
proof -
  obtain fc where h: "ids_to_families_count ord cat st = Inr (fc, card (set (state_families cat st)))"
    and ms: "mset (map fst fc) = mset (families cat)"
    and vals: "\<forall>(f, c) \<in> set fc. c = count_list (state_families cat st) f"
    using ids_to_families_count_valid[OF assms(2) assms(1)] by blast
  have "card (set (state_families cat st)) = nb_distinct_families cat st"
    by (simp add: nb_distinct_families_def length_remdups_card_conv)
  then show ?thesis
    unfolding validate_final_histogram[OF h] quota_count[OF ms vals] spec_validate_final_def
    by simp
qed

theorem validate_final_iff_spec_witness:
  "is_reordering (\<lambda>xs. xs) \<and> valid_id catalog_abc 0 \<and> valid_id catalog_abc 1
   \<and> validate_final (\<lambda>xs. xs) catalog_abc
        \<lparr>min_nb_families = 2, min_objects_per_family = 1,
         min_nb_families_subject_to_min_objects_per_family = 2\<rparr> [0, 1] = Inr True
   \<and> validate_final (\<lambda>xs. xs) catalog_abc
        \<lparr>min_nb_families = 2, min_objects_per_family = 1,
         min_nb_families_subject_to_min_objects_per_family = 3\<rparr> [0, 1] = Inr False"
proof -
  have r: "is_reordering (\<lambda>xs. xs)" by (rule is_reordering_id)
  have v: "\<forall>i\<in>set [0, 1]. valid_id catalog_abc i" by (simp add: valid_id_catalog_abc)
  have fs: "state_families catalog_abc [0, 1] = [''A'', ''B'']"
    by (simp add: state_families_def family_of_def catalog_abc_def a_sound_def)
  have a: "nb_distinct_families catalog_abc [0, 1] = 2"
    by (simp add: nb_distinct_families_def fs)
  have b: "nb_families_meeting_quota catalog_abc
             \<lparr>min_nb_families = 2, min_objects_per_family = 1,
              min_nb_families_subject_to_min_objects_per_family = m\<rparr> [0, 1] = 2" for m
    by (simp add: nb_families_meeting_quota_def fs) (simp add: catalog_abc_def a_sound_def)
  show ?thesis
    using r v validate_final_iff_spec[OF r v] by (simp add: spec_validate_final_def a b)
qed

text \<open>
  Claim C10. The histogram of \<^verbatim>\<open>ids_to_families_count\<close> has an entry for every family
  of the catalogue, with count 0 for a family absent from the state. Hence, when
  \<open>min_objects_per_family\<close> is 0, every family of the catalogue counts towards the
  quota: if the catalogue has at least
  \<open>min_nb_families_subject_to_min_objects_per_family\<close> families, the second test of
  \<^verbatim>\<open>validate_final\<close> passes whatever the state holds, and the result is that of the
  first test alone.
\<close>

theorem histogram_covers_catalog:
  assumes "is_reordering ord" and "\<forall>i\<in>set st. valid_id cat i"
  shows "\<exists>fc nb. ids_to_families_count ord cat st = Inr (fc, nb)
           \<and> fst ` set fc = instrument_family ` set cat
           \<and> (\<forall>fam\<in>instrument_family ` set cat.
                  fam \<notin> set (state_families cat st) \<longrightarrow> (fam, 0) \<in> set fc)
           \<and> (min_objects_per_family cons = 0
                \<and> min_nb_families_subject_to_min_objects_per_family cons \<le> int (nb_families cat)
                \<longrightarrow> \<not> meet_requirements cons (map snd fc) 0
                         < min_nb_families_subject_to_min_objects_per_family cons
                    \<and> validate_final ord cat cons st = Inr (min_nb_families cons \<le> int nb))"
proof -
  define nb where "nb = card (set (state_families cat st))"
  obtain fc where h: "ids_to_families_count ord cat st = Inr (fc, nb)"
    and ms: "mset (map fst fc) = mset (families cat)"
    and vals: "\<forall>(f, c) \<in> set fc. c = count_list (state_families cat st) f"
    using ids_to_families_count_valid[OF assms(2) assms(1)] unfolding nb_def by blast
  have keys: "fst ` set fc = instrument_family ` set cat"
    using mset_eq_setD[OF ms] by (simp add: set_families)
  have zero: "(fam, 0) \<in> set fc"
    if "fam \<in> instrument_family ` set cat" "fam \<notin> set (state_families cat st)" for fam
  proof -
    from that(1) keys obtain c where c: "(fam, c) \<in> set fc" by force
    with vals have "c = count_list (state_families cat st) fam" by blast
    with that(2) have "c = 0" by (simp add: count_list_0_iff)
    with c show ?thesis by simp
  qed
  have len: "length fc = nb_families cat"
    using arg_cong[OF ms, of size] by (simp add: nb_families_def)
  have quota: "\<not> meet_requirements cons (map snd fc) 0
                   < min_nb_families_subject_to_min_objects_per_family cons
               \<and> validate_final ord cat cons st = Inr (min_nb_families cons \<le> int nb)"
    if q: "min_objects_per_family cons = 0"
      and m: "min_nb_families_subject_to_min_objects_per_family cons \<le> int (nb_families cat)"
  proof -
    have all: "length (filter (\<lambda>c. min_objects_per_family cons \<le> int c) (map snd fc))
               = nb_families cat"
      using len by (simp add: q)
    show ?thesis
      unfolding validate_final_histogram[OF h] meet_requirements_less all using m by simp
  qed
  show ?thesis
  proof (intro exI conjI)
    show "ids_to_families_count ord cat st = Inr (fc, nb)" by (rule h)
    show "fst ` set fc = instrument_family ` set cat" by (rule keys)
    show "\<forall>fam\<in>instrument_family ` set cat.
            fam \<notin> set (state_families cat st) \<longrightarrow> (fam, 0) \<in> set fc"
      using zero by blast
    show "min_objects_per_family cons = 0
          \<and> min_nb_families_subject_to_min_objects_per_family cons \<le> int (nb_families cat)
          \<longrightarrow> \<not> meet_requirements cons (map snd fc) 0
                   < min_nb_families_subject_to_min_objects_per_family cons
              \<and> validate_final ord cat cons st = Inr (min_nb_families cons \<le> int nb)"
      using quota by blast
  qed
qed

text \<open>On the catalogue A, B, C and the state of sound 0 alone, no family but A occurs; with
  a quota of 0 three families are required to meet it, and the state is accepted.\<close>

theorem histogram_covers_catalog_witness:
  "is_reordering (\<lambda>xs. xs) \<and> valid_id catalog_abc 0
   \<and> ids_to_families_count (\<lambda>xs. xs) catalog_abc [0]
       = Inr ([(''A'', 1), (''B'', 0), (''C'', 0)], 1)
   \<and> validate_final (\<lambda>xs. xs) catalog_abc
        \<lparr>min_nb_families = 1, min_objects_per_family = 0,
         min_nb_families_subject_to_min_objects_per_family = 3\<rparr> [0] = Inr True"
proof -
  let ?cons = "\<lparr>min_nb_families = 1, min_objects_per_family = 0,
                 min_nb_families_subject_to_min_objects_per_family = 3\<rparr>"
  have r: "is_reordering (\<lambda>xs. xs)" by (rule is_reordering_id)
  have v: "\<forall>i\<in>set [0]. valid_id catalog_abc i" by (simp add: valid_id_catalog_abc)
  have e: "ids_to_families_count (\<lambda>xs. xs) catalog_abc [0]
           = Inr ([(''A'', 1), (''B'', 0), (''C'', 0)], 1)"
    by (simp add: ids_to_families_count_def py_index_def families_def families_count_def
        catalog_abc_def a_sound_def)
  have n: "nb_families catalog_abc = 3"
    by (simp add: nb_families_def families_def families_count_def catalog_abc_def a_sound_def)
  from histogram_covers_catalog[OF r v, of ?cons]
  have "validate_final (\<lambda>xs. xs) catalog_abc ?cons [0] = Inr True"
    unfolding e by (simp add: n)
  with r v e show ?thesis by simp
qed

section \<open>Drawing a candidate\<close>

lemma randint_catalog:
  "randint r pos 0 (nb_sounds cat - 1) =
     (if cat = [] then Inl ValueError else Inr (draw r cat pos, Suc pos))"
proof (cases "cat = []")
  case True
  then show ?thesis by (simp add: randint_def nb_sounds_def)
next
  case False
  then have "0 < length cat" by simp
  then have "nat (int (length cat) - 1 - 0 + 1) = length cat" by simp
  with False show ?thesis by (simp add: randint_def nb_sounds_def draw_def)
qed

lemma draw_range: "cat \<noteq> [] \<Longrightarrow> 0 \<le> draw r cat pos \<and> draw r cat pos < nb_sounds cat"
  by (simp add: draw_def nb_sounds_def)

lemma next_id_loop_stop:
  "g \<notin> set excl \<Longrightarrow> next_id_loop r cat excl g pos = Some (Inr (g, pos))"
  by (subst next_id_loop.simps) simp

lemma next_id_loop_again:
  "g \<in> set excl \<Longrightarrow> cat \<noteq> [] \<Longrightarrow>
   next_id_loop r cat excl g pos = next_id_loop r cat excl (draw r cat pos) (Suc pos)"
  by (subst next_id_loop.simps) (simp add: randint_catalog)

lemma next_id_loop_empty:
  "g \<in> set excl \<Longrightarrow> next_id_loop r [] excl g pos = Some (Inl ValueError)"
  by (subst next_id_loop.simps) (simp add: randint_catalog)

text \<open>The loop returns the first drawn id that is not excluded.\<close>

lemma next_id_loop_first:
  assumes "cat \<noteq> []" and "\<forall>j<k. draw r cat (pos + j) \<in> set excl"
    and "draw r cat (pos + k) \<notin> set excl" and "g \<in> set excl"
  shows "next_id_loop r cat excl g pos = Some (Inr (draw r cat (pos + k), Suc (pos + k)))"
  using assms
proof (induction k arbitrary: pos g)
  case 0
  then show ?case by (simp add: next_id_loop_again next_id_loop_stop)
next
  case (Suc k)
  have g1: "draw r cat pos \<in> set excl" using Suc.prems(2) by force
  have "\<forall>j<k. draw r cat (Suc pos + j) \<in> set excl"
  proof (intro allI impI)
    fix j assume "j < k"
    then have "draw r cat (pos + Suc j) \<in> set excl" using Suc.prems(2) by blast
    then show "draw r cat (Suc pos + j) \<in> set excl" by simp
  qed
  moreover have "draw r cat (Suc pos + k) \<notin> set excl" using Suc.prems(3) by simp
  ultimately have "next_id_loop r cat excl (draw r cat pos) (Suc pos)
                   = Some (Inr (draw r cat (Suc pos + k), Suc (Suc pos + k)))"
    using Suc.IH[OF Suc.prems(1) _ _ g1] by blast
  then show ?case using Suc.prems(1,4) by (simp add: next_id_loop_again)
qed

text \<open>A returned id is not excluded; it is the given one or a drawn one.\<close>

lemma next_id_loop_result_aux:
  assumes "next_id_loop r cat excl g pos = Some y"
  shows "\<forall>g' pos'. y = Inr (g', pos') \<longrightarrow>
      g' \<notin> set excl \<and> pos \<le> pos' \<and> (g' = g \<or> (0 \<le> g' \<and> g' < nb_sounds cat))"
proof (rule next_id_loop.raw_induct
    [where P = "\<lambda>r cat excl g pos y. \<forall>g' pos'. y = Inr (g', pos') \<longrightarrow>
        g' \<notin> set excl \<and> pos \<le> pos' \<and> (g' = g \<or> (0 \<le> g' \<and> g' < nb_sounds cat))",
      OF _ assms], goal_cases)
  case (1 loop r cat excl g pos y)
  show ?case
  proof (cases "g \<in> set excl")
    case False
    with 1(2) show ?thesis by auto
  next
    case True
    show ?thesis
    proof (cases "cat = []")
      case True
      with \<open>g \<in> set excl\<close> 1(2) show ?thesis by (auto simp: randint_catalog)
    next
      case False
      with True 1(2) have "loop r cat excl (draw r cat pos) (Suc pos) = Some y"
        by (simp add: randint_catalog)
      from 1(1)[OF this] draw_range[OF False, of r pos] show ?thesis by auto
    qed
  qed
qed

lemma next_id_loop_result:
  assumes "next_id_loop r cat excl g pos = Some (Inr (g', pos'))"
  shows "g' \<notin> set excl \<and> pos \<le> pos' \<and> (g' = g \<or> (0 \<le> g' \<and> g' < nb_sounds cat))"
  using next_id_loop_result_aux[OF assms] by blast

text \<open>When every id of the catalogue is excluded the loop never returns.\<close>

lemma next_id_loop_diverges_aux:
  assumes "next_id_loop r cat excl g pos = Some y"
  shows "\<not> (cat \<noteq> [] \<and> (\<forall>i. 0 \<le> i \<and> i < nb_sounds cat \<longrightarrow> i \<in> set excl) \<and> g \<in> set excl)"
proof (rule next_id_loop.raw_induct
    [where P = "\<lambda>r cat excl g pos y.
        \<not> (cat \<noteq> [] \<and> (\<forall>i. 0 \<le> i \<and> i < nb_sounds cat \<longrightarrow> i \<in> set excl) \<and> g \<in> set excl)",
      OF _ assms], goal_cases)
  case (1 loop r cat excl g pos y)
  show ?case
  proof
    assume a: "cat \<noteq> [] \<and> (\<forall>i. 0 \<le> i \<and> i < nb_sounds cat \<longrightarrow> i \<in> set excl) \<and> g \<in> set excl"
    then have ne: "cat \<noteq> []" and g: "g \<in> set excl" by simp_all
    from 1(2) g ne have l: "loop r cat excl (draw r cat pos) (Suc pos) = Some y"
      by (simp add: randint_catalog)
    have "draw r cat pos \<in> set excl" using a draw_range[OF ne, of r pos] by blast
    with 1(1)[OF l] a show False by blast
  qed
qed

lemma next_id_loop_diverges:
  assumes "cat \<noteq> []" and "\<forall>i. 0 \<le> i \<and> i < nb_sounds cat \<longrightarrow> i \<in> set excl" and "g \<in> set excl"
  shows "next_id_loop r cat excl g pos = None"
proof (cases "next_id_loop r cat excl g pos")
  case None
  then show ?thesis .
next
  case (Some y)
  from next_id_loop_diverges_aux[OF Some] assms show ?thesis by blast
qed

lemma next_id_unfold:
  "cat \<noteq> [] \<Longrightarrow>
   next_id r cat pos st siblings =
     next_id_loop r cat (remdups (st @ siblings)) (draw r cat pos) (Suc pos)"
  by (simp add: next_id_def randint_catalog)

lemma next_id_empty_catalog: "next_id r [] pos st siblings = Some (Inl ValueError)"
  by (simp add: next_id_def randint_catalog)

lemma eligible_draw:
  "cat \<noteq> [] \<Longrightarrow>
   eligible cat st siblings (draw r cat pos) \<longleftrightarrow> draw r cat pos \<notin> set (remdups (st @ siblings))"
  using draw_range[of cat r pos] by (auto simp: eligible_def)

lemma next_id_diverges:
  assumes "cat \<noteq> []" and "covered cat st siblings"
  shows "next_id r cat pos st siblings = None"
proof -
  have cov: "\<forall>i. 0 \<le> i \<and> i < nb_sounds cat \<longrightarrow> i \<in> set (remdups (st @ siblings))"
    using assms(2) by (auto simp: covered_def eligible_def)
  then have "draw r cat pos \<in> set (remdups (st @ siblings))"
    using draw_range[OF assms(1), of r pos] by blast
  from next_id_loop_diverges[OF assms(1) cov this] show ?thesis
    by (simp add: next_id_unfold[OF assms(1)])
qed

lemma next_id_eligible:
  assumes "next_id r cat pos st siblings = Some (Inr (g, pos'))"
  shows "eligible cat st siblings g \<and> pos < pos'"
proof -
  have ne: "cat \<noteq> []" using assms by (auto simp: next_id_empty_catalog)
  from assms have "next_id_loop r cat (remdups (st @ siblings)) (draw r cat pos) (Suc pos)
                   = Some (Inr (g, pos'))"
    by (simp add: next_id_unfold[OF ne])
  from next_id_loop_result[OF this] draw_range[OF ne, of r pos]
  show ?thesis by (auto simp: eligible_def)
qed

lemma next_id_first:
  assumes ne: "cat \<noteq> []" and before: "\<forall>j<k. \<not> eligible cat st siblings (draw r cat (pos + j))"
    and at: "eligible cat st siblings (draw r cat (pos + k))"
  shows "next_id r cat pos st siblings = Some (Inr (draw r cat (pos + k), Suc (pos + k)))"
proof (cases k)
  case 0
  with at show ?thesis
    by (simp add: next_id_unfold[OF ne] next_id_loop_stop eligible_draw[OF ne])
next
  case (Suc k')
  let ?excl = "remdups (st @ siblings)"
  have g: "draw r cat pos \<in> set ?excl"
    using before Suc eligible_draw[OF ne, of st siblings r pos] by force
  have "\<forall>j<k'. draw r cat (Suc pos + j) \<in> set ?excl"
  proof (intro allI impI)
    fix j assume "j < k'"
    then have "Suc j < k" using Suc by simp
    with before have "\<not> eligible cat st siblings (draw r cat (pos + Suc j))" by blast
    then show "draw r cat (Suc pos + j) \<in> set ?excl"
      using eligible_draw[OF ne, of st siblings r "pos + Suc j"] by simp
  qed
  moreover have "draw r cat (Suc pos + k') \<notin> set ?excl"
    using at Suc eligible_draw[OF ne, of st siblings r "pos + k"] by simp
  ultimately have "next_id_loop r cat ?excl (draw r cat pos) (Suc pos)
                   = Some (Inr (draw r cat (Suc pos + k'), Suc (Suc pos + k')))"
    using next_id_loop_first[OF ne _ _ g] by blast
  then show ?thesis using Suc by (simp add: next_id_unfold[OF ne])
qed

lemma nb_sounds_catalog_abc: "nb_sounds catalog_abc = 3"
  by (simp add: nb_sounds_def catalog_abc_def)

lemma catalog_abc_not_empty: "catalog_abc \<noteq> []"
  by (simp add: catalog_abc_def)

lemma draw_catalog_abc: "draw r catalog_abc pos = int (r pos mod 3)"
  by (simp add: draw_def catalog_abc_def)

lemma covered_catalog_abc: "covered catalog_abc [0, 1, 2] []"
  unfolding covered_def eligible_def nb_sounds_catalog_abc by auto

text \<open>
  Claim C4, as the code has it. \<^verbatim>\<open>next_id\<close> has no failure for exhausted candidates: when
  the state and the siblings cover every id of a non-empty catalogue it draws for ever and
  never returns. On an empty catalogue \<^verbatim>\<open>randint\<close> raises. Whenever \<^verbatim>\<open>next_id\<close> returns
  an id, the id is one of the catalogue outside the state and the siblings; and it returns
  the first drawn id of that kind, as soon as the generator draws one.
\<close>

theorem next_id_first_eligible_draw:
  "(cat = [] \<longrightarrow> next_id r cat pos st siblings = Some (Inl ValueError))
   \<and> (cat \<noteq> [] \<and> covered cat st siblings \<longrightarrow> next_id r cat pos st siblings = None)
   \<and> (\<forall>g pos'. next_id r cat pos st siblings = Some (Inr (g, pos'))
          \<longrightarrow> eligible cat st siblings g)
   \<and> (\<forall>k. eligible cat st siblings (draw r cat (pos + k))
            \<and> (\<forall>j<k. \<not> eligible cat st siblings (draw r cat (pos + j)))
          \<longrightarrow> next_id r cat pos st siblings = Some (Inr (draw r cat (pos + k), Suc (pos + k))))"
proof (intro conjI allI impI)
  assume "cat = []"
  then show "next_id r cat pos st siblings = Some (Inl ValueError)"
    by (simp add: next_id_empty_catalog)
next
  assume "cat \<noteq> [] \<and> covered cat st siblings"
  then show "next_id r cat pos st siblings = None" by (simp add: next_id_diverges)
next
  fix g pos' assume "next_id r cat pos st siblings = Some (Inr (g, pos'))"
  then show "eligible cat st siblings g" by (simp add: next_id_eligible)
next
  fix k
  assume a: "eligible cat st siblings (draw r cat (pos + k))
             \<and> (\<forall>j<k. \<not> eligible cat st siblings (draw r cat (pos + j)))"
  then have "cat \<noteq> []" by (auto simp: eligible_def nb_sounds_def)
  with a show "next_id r cat pos st siblings = Some (Inr (draw r cat (pos + k), Suc (pos + k)))"
    by (simp add: next_id_first)
qed

text \<open>On the catalogue of three sounds, with the draws 0, 1, 2, ...: the state [0] and the
  sibling 1 leave sound 2, which the third draw yields; the state [0, 1] and the sibling 2
  leave nothing, and the call does not return.\<close>

theorem next_id_first_eligible_draw_witness:
  "next_id (\<lambda>i. i) catalog_abc 0 [0] [1] = Some (Inr (2, 3))
   \<and> eligible catalog_abc [0] [1] 2
   \<and> covered catalog_abc [0, 1] [2]
   \<and> next_id (\<lambda>i. i) catalog_abc 0 [0, 1] [2] = None
   \<and> next_id (\<lambda>i. i) [] 0 [] [] = Some (Inl ValueError)"
proof -
  have e: "eligible catalog_abc [0] [1] g \<longleftrightarrow> g = 2" for g
    unfolding eligible_def nb_sounds_catalog_abc by auto
  have c: "covered catalog_abc [0, 1] [2]"
    unfolding covered_def eligible_def nb_sounds_catalog_abc by auto
  have b: "\<forall>j<2. \<not> eligible catalog_abc [0] [1] (draw (\<lambda>i. i) catalog_abc (0 + j))"
    by (auto simp: e draw_catalog_abc less_Suc_eq numeral_2_eq_2)
  have a: "eligible catalog_abc [0] [1] (draw (\<lambda>i. i) catalog_abc (0 + 2))"
    by (simp add: e draw_catalog_abc)
  note t1 = next_id_first_eligible_draw[of catalog_abc "\<lambda>i. i" 0 "[0]" "[1]"]
  note t2 = next_id_first_eligible_draw[of catalog_abc "\<lambda>i. i" 0 "[0, 1]" "[2]"]
  note t3 = next_id_first_eligible_draw[of "[]" "\<lambda>i. i" 0 "[]" "[]"]
  have "next_id (\<lambda>i. i) catalog_abc 0 [0] [1]
          = Some (Inr (draw (\<lambda>i. i) catalog_abc (0 + 2), Suc (0 + 2)))"
    using t1 a b by blast
  then have r1: "next_id (\<lambda>i. i) catalog_abc 0 [0] [1] = Some (Inr (2, 3))"
    by (simp add: draw_catalog_abc)
  have r2: "next_id (\<lambda>i. i) catalog_abc 0 [0, 1] [2] = None"
    using t2 c catalog_abc_not_empty by blast
  have r3: "next_id (\<lambda>i. i) [] 0 [] [] = Some (Inl ValueError)"
    using t3 by blast
  show ?thesis using r1 r2 r3 c e by simp
qed

text \<open>Against the claim as the specification words it: with every id in the state, the
  call neither fails nor returns.\<close>

theorem next_id_exhausted_counterexample:
  "covered catalog_abc [0, 1, 2] []
   \<and> next_id (rnd counting_env) catalog_abc 0 [0, 1, 2] [] = None"
  using covered_catalog_abc next_id_diverges[OF catalog_abc_not_empty covered_catalog_abc]
  by simp

section \<open>The search\<close>

subsection \<open>What one iteration does\<close>

lemma add_child_eq:
  "add_child ar c sid =
     ((ar @ [new_node (Some c) (level (ar ! c) + 1) sid])
        [c := (ar ! c)\<lparr>childs := childs (ar ! c) @ [length ar]\<rparr>], length ar)"
  by (simp add: add_child_def Let_def)

lemma add_child_length: "length (fst (add_child ar c sid)) = Suc (length ar)"
  by (simp add: add_child_eq)

lemma add_child_new:
  "c < length ar \<Longrightarrow>
   fst (add_child ar c sid) ! length ar = new_node (Some c) (level (ar ! c) + 1) sid"
  by (simp add: add_child_eq nth_append)

lemma add_child_old:
  assumes "h < length ar"
  shows "level (fst (add_child ar c sid) ! h) = level (ar ! h)"
    and "parent (fst (add_child ar c sid) ! h) = parent (ar ! h)"
    and "sound_id (fst (add_child ar c sid) ! h) = sound_id (ar ! h)"
    and "childs (fst (add_child ar c sid) ! h)
         = (if h = c then childs (ar ! c) @ [length ar] else childs (ar ! h))"
proof -
  let ?u = "(ar ! c)\<lparr>childs := childs (ar ! c) @ [length ar]\<rparr>"
  let ?ar = "ar @ [new_node (Some c) (level (ar ! c) + 1) sid]"
  have n: "fst (add_child ar c sid) ! h = (if h = c then ?u else ar ! h)"
  proof (cases "h = c")
    case True
    then have "c < length ?ar" using assms by simp
    then have "?ar[c := ?u] ! c = ?u" by (rule nth_list_update_eq)
    with True show ?thesis by (simp add: add_child_eq)
  next
    case False
    then have "?ar[c := ?u] ! h = ?ar ! h" by simp
    with False assms show ?thesis by (simp add: add_child_eq nth_append)
  qed
  show "level (fst (add_child ar c sid) ! h) = level (ar ! h)" by (simp add: n)
  show "parent (fst (add_child ar c sid) ! h) = parent (ar ! h)" by (simp add: n)
  show "sound_id (fst (add_child ar c sid) ! h) = sound_id (ar ! h)" by (simp add: n)
  show "childs (fst (add_child ar c sid) ! h)
         = (if h = c then childs (ar ! c) @ [length ar] else childs (ar ! h))"
    by (simp add: n)
qed

lemma add_new_child_result:
  assumes "add_new_child env gen s c new_id pos' = Inr s'"
  shows "\<exists>ok. validate_intermediate (set_order env) (primary_sounds gen) (gen_constraints gen)
                 (nb_objects_per_scene gen) (state s @ [new_id])
                 (level (fst (add_child (arena s) c new_id) ! length (arena s))) = Inr ok
          \<and> s' = s\<lparr>arena := fst (add_child (arena s) c new_id),
                    next_node := Some (if ok then length (arena s) else c),
                    state := (if ok then state s @ [new_id] else state s),
                    rng_pos := pos'\<rparr>"
  using assms
  by (auto simp: add_new_child_def Let_def add_child_eq split: sum.splits if_splits)

lemma reached_bottom_result:
  assumes "reached_bottom env gen nb s c = Inr s'"
  shows "\<exists>ok. validate_final (set_order env) (primary_sounds gen) (gen_constraints gen) (state s)
                 = Inr ok
          \<and> (if ok \<and> limit_reached nb (start_index s) then s' = s\<lparr>continue_work := False\<rparr>
              else \<exists>st p nn st' cw.
                     py_pop (state s) = Inr st \<and> parent (arena s ! c) = Some p
                     \<and> going_up (arena s) (nb_tree_branch gen) p st = Inr (nn, st', cw)
                     \<and> s' = s\<lparr>start_index := (if ok then start_index s + 1 else start_index s),
                               generated_scenes :=
                                 (if ok then generated_scenes s @ [state s]
                                  else generated_scenes s),
                               next_node := nn, state := st', continue_work := cw\<rparr>)"
proof (cases "validate_final (set_order env) (primary_sounds gen) (gen_constraints gen) (state s)")
  case (Inl e)
  with assms show ?thesis by (simp add: reached_bottom_def)
next
  case (Inr ok)
  show ?thesis
  proof (cases "ok \<and> limit_reached nb (start_index s)")
    case True
    with Inr assms show ?thesis by (auto simp: reached_bottom_def)
  next
    case False
    define s1 where "s1 = (if ok then s\<lparr>start_index := start_index s + 1,
                                       generated_scenes := generated_scenes s @ [state s]\<rparr>
                           else s)"
    have s1: "state s1 = state s" "arena s1 = arena s" by (simp_all add: s1_def)
    have s1': "s1 = s\<lparr>start_index := (if ok then start_index s + 1 else start_index s),
                      generated_scenes := (if ok then generated_scenes s @ [state s]
                                           else generated_scenes s)\<rparr>"
      by (simp add: s1_def)
    have "reached_bottom env gen nb s c =
            (case py_pop (state s) of
                Inl e \<Rightarrow> Inl e
              | Inr st \<Rightarrow>
                  (case parent (arena s ! c) of
                     None \<Rightarrow> Inl AttributeError
                   | Some p \<Rightarrow>
                       (case going_up (arena s) (nb_tree_branch gen) p st of
                          Inl e \<Rightarrow> Inl e
                        | Inr (nn, st', cw) \<Rightarrow>
                            Inr (s1\<lparr>next_node := nn, state := st', continue_work := cw\<rparr>))))"
      using Inr False
      by (cases ok; simp add: reached_bottom_def s1_def Let_def
            split: sum.split option.split prod.split)
    with assms
    have r: "(case py_pop (state s) of
                Inl e \<Rightarrow> Inl e
              | Inr st \<Rightarrow>
                  (case parent (arena s ! c) of
                     None \<Rightarrow> Inl AttributeError
                   | Some p \<Rightarrow>
                       (case going_up (arena s) (nb_tree_branch gen) p st of
                          Inl e \<Rightarrow> Inl e
                        | Inr (nn, st', cw) \<Rightarrow>
                            Inr (s1\<lparr>next_node := nn, state := st', continue_work := cw\<rparr>))))
             = Inr s'"
      by simp
    then obtain st where st: "py_pop (state s) = Inr st" by (cases "py_pop (state s)") auto
    with r obtain p where p: "parent (arena s ! c) = Some p"
      by (cases "parent (arena s ! c)") auto
    with r st obtain nn st' cw
      where g: "going_up (arena s) (nb_tree_branch gen) p st = Inr (nn, st', cw)"
      by (cases "going_up (arena s) (nb_tree_branch gen) p st") auto
    with r st p have "s' = s1\<lparr>next_node := nn, state := st', continue_work := cw\<rparr>" by simp
    then have "s' = s\<lparr>start_index := (if ok then start_index s + 1 else start_index s),
                       generated_scenes := (if ok then generated_scenes s @ [state s]
                                            else generated_scenes s),
                       next_node := nn, state := st', continue_work := cw\<rparr>"
      by (simp add: s1')
    with Inr False st p g show ?thesis by auto
  qed
qed

lemma step_cases:
  assumes "step env gen nb s = Some (Inr s')"
  obtains
    (descend) c new_id pos' where "next_node s = Some c"
      "level (arena s ! c) < nb_objects_per_scene gen - 1"
      "int (length (childs (arena s ! c))) < nb_tree_branch gen"
      "next_id (rnd env) (primary_sounds gen) (rng_pos s) (state s) (get_childs_ids (arena s) c)
         = Some (Inr (new_id, pos'))"
      "add_new_child env gen s c new_id pos' = Inr s'"
  | (up) c where "next_node s = Some c"
      "level (arena s ! c) < nb_objects_per_scene gen - 1"
      "\<not> int (length (childs (arena s ! c))) < nb_tree_branch gen"
      "s' = go_up_one_level s c"
  | (bottom) c where "next_node s = Some c"
      "\<not> level (arena s ! c) < nb_objects_per_scene gen - 1"
      "reached_bottom env gen nb s c = Inr s'"
proof (cases "next_node s")
  case None
  with assms show ?thesis by (simp add: step_def)
next
  case (Some c)
  show ?thesis
  proof (cases "level (arena s ! c) < nb_objects_per_scene gen - 1")
    case False
    with Some assms have "reached_bottom env gen nb s c = Inr s'" by (simp add: step_def)
    with Some False show ?thesis by (rule bottom)
  next
    case lv: True
    show ?thesis
    proof (cases "int (length (childs (arena s ! c))) < nb_tree_branch gen")
      case False
      with Some lv assms have "s' = go_up_one_level s c" by (simp add: step_def)
      with Some lv False show ?thesis by (rule up)
    next
      case True
      let ?n = "next_id (rnd env) (primary_sounds gen) (rng_pos s) (state s)
                  (get_childs_ids (arena s) c)"
      from Some lv True assms
      have st: "(case ?n of None \<Rightarrow> None | Some (Inl e) \<Rightarrow> Some (Inl e)
                 | Some (Inr (new_sound_id, pos')) \<Rightarrow>
                     Some (add_new_child env gen s c new_sound_id pos')) = Some (Inr s')"
        by (simp add: step_def)
      then obtain new_id pos' where n: "?n = Some (Inr (new_id, pos'))"
        by (cases ?n) (auto split: sum.splits)
      with st have "add_new_child env gen s c new_id pos' = Inr s'" by simp
      with Some lv True n show ?thesis by (rule descend)
    qed
  qed
qed

subsection \<open>The invariant of the search\<close>

lemma wf_arena_add_child:
  assumes w: "wf_arena ar" and c: "c < length ar"
  shows "wf_arena (fst (add_child ar c sid))"
proof -
  let ?ar = "fst (add_child ar c sid)"
  have len: "length ?ar = Suc (length ar)" by (rule add_child_length)
  have lc: "- 1 \<le> level (ar ! c)" using w c by (simp add: wf_arena_def)
  have "- 1 \<le> level (?ar ! h) \<and>
        (case parent (?ar ! h) of None \<Rightarrow> h = 0
         | Some p \<Rightarrow> p < h \<and> level (?ar ! p) + 1 = level (?ar ! h))"
    if h: "h < length ?ar" for h
  proof (cases "h = length ar")
    case True
    have "?ar ! h = new_node (Some c) (level (ar ! c) + 1) sid"
      using True add_child_new[OF c] by simp
    then show ?thesis using lc c True add_child_old(1)[OF c, of c sid]
      by (simp add: new_node_def)
  next
    case False
    with h len have hl: "h < length ar" by simp
    have old: "- 1 \<le> level (ar ! h) \<and>
        (case parent (ar ! h) of None \<Rightarrow> h = 0
         | Some p \<Rightarrow> p < h \<and> level (ar ! p) + 1 = level (ar ! h))"
      using w hl by (simp add: wf_arena_def)
    show ?thesis
    proof (cases "parent (ar ! h)")
      case None
      with old hl show ?thesis by (auto simp: add_child_old)
    next
      case (Some p)
      with old have "p < h" "level (ar ! p) + 1 = level (ar ! h)" by simp_all
      moreover from \<open>p < h\<close> hl have "p < length ar" by simp
      ultimately show ?thesis using old hl Some by (simp add: add_child_old)
    qed
  qed
  moreover have "?ar \<noteq> []" using len by auto
  ultimately show ?thesis by (simp add: wf_arena_def)
qed

lemma wf_arena_parent:
  assumes "wf_arena ar" and "h < length ar" and "parent (ar ! h) = Some p"
  shows "p < length ar \<and> level (ar ! p) + 1 = level (ar ! h) \<and> 0 \<le> level (ar ! h)"
proof -
  from assms have a: "p < h \<and> level (ar ! p) + 1 = level (ar ! h)"
    by (auto simp: wf_arena_def split: option.splits)
  with assms(2) have pl: "p < length ar" by simp
  with assms(1) have "- 1 \<le> level (ar ! p)" by (simp add: wf_arena_def)
  with a pl show ?thesis by simp
qed

lemma wf_arena_root:
  assumes "wf_arena ar" and "h < length ar" and "parent (ar ! h) = None"
  shows "h = 0"
  using assms by (auto simp: wf_arena_def split: option.splits)

lemma on_path_parent:
  assumes w: "wf_arena ar" and o: "on_path B ar c st" and p: "parent (ar ! c) = Some p"
  shows "st \<noteq> [] \<and> on_path B ar p (butlast st)"
proof -
  from o have c: "c < length ar" and l: "int (length st) = level (ar ! c) + 1"
    and b: "level (ar ! c) \<le> B - 1 \<or> st = []"
    by (simp_all add: on_path_def)
  from wf_arena_parent[OF w c p]
  have pl: "p < length ar" and lv: "level (ar ! p) + 1 = level (ar ! c)"
    and l0: "0 \<le> level (ar ! c)" by simp_all
  from l l0 have ne: "st \<noteq> []" by auto
  then have "int (length (butlast st)) = int (length st) - 1" by (cases st) simp_all
  with l lv have "int (length (butlast st)) = level (ar ! p) + 1" by simp
  moreover from b ne lv have "level (ar ! p) \<le> B - 1" by simp
  ultimately show ?thesis using pl ne by (simp add: on_path_def)
qed

text \<open>The inner loop stops on a node of the path with a free slot, or leaves the root,
  all of whose slots are taken.\<close>

lemma going_up_on_path:
  assumes "wf_arena ar" and "on_path B ar nn st" and "distinct st"
    and "going_up ar w nn st = Inr (nn', st', cw)"
  shows "distinct st' \<and>
         (if cw then \<exists>c. nn' = Some c \<and> on_path B ar c st'
                        \<and> int (length (childs (ar ! c))) < w
          else nn' = None \<and> w \<le> int (length (childs (ar ! 0))))"
  using assms
proof (induction ar w nn st rule: going_up.induct)
  case (1 ar w nn st)
  show ?case
  proof (cases "w \<le> int (length (childs (ar ! nn)))")
    case False
    with "1.prems"(4) have "nn' = Some nn" "st' = st" "cw"
      by (simp_all add: going_up.simps[of ar w nn st])
    with False "1.prems" show ?thesis by auto
  next
    case full: True
    show ?thesis
    proof (cases "parent (ar ! nn)")
      case None
      with full "1.prems"(4) have r: "nn' = None" "st' = st" "\<not> cw"
        by (simp_all add: going_up.simps[of ar w nn st])
      from "1.prems"(2) have "nn < length ar" by (simp add: on_path_def)
      from wf_arena_root[OF "1.prems"(1) this None] full r "1.prems"(3)
      show ?thesis by simp
    next
      case (Some p)
      from on_path_parent[OF "1.prems"(1,2) Some]
      have ne: "st \<noteq> []" and op: "on_path B ar p (butlast st)" by simp_all
      from ne have pop: "py_pop st = Inr (butlast st)" by (simp add: py_pop_def)
      with full Some "1.prems"(4) have g: "going_up ar w p (butlast st) = Inr (nn', st', cw)"
        by (simp add: going_up.simps[of ar w nn st])
      have "distinct (butlast st)" using "1.prems"(3) by (rule distinct_butlast)
      from "1.IH"[OF full Some pop "1.prems"(1) op this g] show ?thesis .
    qed
  qed
qed

lemma search_inv_initial: "search_inv gen (initial_search start pos)"
  by (simp add: search_inv_def initial_search_def wf_arena_def new_node_def on_path_def)

lemma search_inv_step:
  assumes inv: "search_inv gen s" and cw: "continue_work s"
    and st: "step env gen nb s = Some (Inr s')"
  shows "search_inv gen s'"
proof -
  let ?B = "nb_objects_per_scene gen"
  from inv cw obtain c where c: "next_node s = Some c"
    and op: "on_path ?B (arena s) c (state s)"
    by (auto simp: search_inv_def)
  from inv have w: "wf_arena (arena s)" and d: "distinct (state s)"
    and g: "\<forall>sc\<in>set (generated_scenes s). int (length sc) = ?B \<and> distinct sc"
    by (simp_all add: search_inv_def)
  from op have cl: "c < length (arena s)"
    and len: "int (length (state s)) = level (arena s ! c) + 1"
    and bound: "level (arena s ! c) \<le> ?B - 1 \<or> state s = []"
    by (simp_all add: on_path_def)
  from st show ?thesis
  proof (cases rule: step_cases)
    case (descend c' new_id pos')
    with c have [simp]: "c' = c" by simp
    let ?ar = "fst (add_child (arena s) c new_id)"
    from next_id_eligible[OF descend(4)[simplified]]
    have fresh: "new_id \<notin> set (state s)" by (simp add: eligible_def)
    from add_new_child_result[OF descend(5)[simplified]] obtain ok where
      s': "s' = s\<lparr>arena := ?ar, next_node := Some (if ok then length (arena s) else c),
                  state := (if ok then state s @ [new_id] else state s), rng_pos := pos'\<rparr>"
      by blast
    have w': "wf_arena ?ar" by (rule wf_arena_add_child[OF w cl])
    have lnew: "level (?ar ! length (arena s)) = level (arena s ! c) + 1"
      by (simp add: add_child_new[OF cl] new_node_def)
    have lold: "level (?ar ! c) = level (arena s ! c)" by (rule add_child_old(1)[OF cl])
    have "on_path ?B ?ar (if ok then length (arena s) else c)
            (if ok then state s @ [new_id] else state s)"
      using descend(2) len bound cl lnew lold
      by (simp add: on_path_def add_child_length)
    with s' w' d fresh g show ?thesis by (simp add: search_inv_def)
  next
    case (up c')
    with c have [simp]: "c' = c" by simp
    show ?thesis
    proof (cases "parent (arena s ! c)")
      case None
      with up(4) have "s' = s\<lparr>next_node := None, continue_work := False\<rparr>"
        by (simp add: go_up_one_level_def)
      with w d g show ?thesis by (simp add: search_inv_def)
    next
      case (Some p)
      from on_path_parent[OF w op Some]
      have ne: "state s \<noteq> []" and op': "on_path ?B (arena s) p (butlast (state s))"
        by simp_all
      from Some up(4) ne have "s' = s\<lparr>next_node := Some p, state := butlast (state s)\<rparr>"
        by (simp add: go_up_one_level_def)
      with w d g op' cw show ?thesis by (simp add: search_inv_def distinct_butlast)
    qed
  next
    case (bottom c')
    with c have [simp]: "c' = c" by simp
    from reached_bottom_result[OF bottom(3)[simplified]] obtain ok where
      r: "if ok \<and> limit_reached nb (start_index s) then s' = s\<lparr>continue_work := False\<rparr>
          else \<exists>st p nn st' cw.
                 py_pop (state s) = Inr st \<and> parent (arena s ! c) = Some p
                 \<and> going_up (arena s) (nb_tree_branch gen) p st = Inr (nn, st', cw)
                 \<and> s' = s\<lparr>start_index := (if ok then start_index s + 1 else start_index s),
                           generated_scenes :=
                             (if ok then generated_scenes s @ [state s]
                              else generated_scenes s),
                           next_node := nn, state := st', continue_work := cw\<rparr>"
      by blast
    show ?thesis
    proof (cases "ok \<and> limit_reached nb (start_index s)")
      case True
      with r have "s' = s\<lparr>continue_work := False\<rparr>" by simp
      with w d g show ?thesis by (simp add: search_inv_def)
    next
      case False
      with r obtain st p nn st' cw' where pop: "py_pop (state s) = Inr st"
        and par: "parent (arena s ! c) = Some p"
        and gu: "going_up (arena s) (nb_tree_branch gen) p st = Inr (nn, st', cw')"
        and s': "s' = s\<lparr>start_index := (if ok then start_index s + 1 else start_index s),
                           generated_scenes :=
                             (if ok then generated_scenes s @ [state s]
                              else generated_scenes s),
                           next_node := nn, state := st', continue_work := cw'\<rparr>"
        by auto
      from pop have ne: "state s \<noteq> []" and st: "st = butlast (state s)"
        by (auto simp: py_pop_def split: if_splits)
      from on_path_parent[OF w op par] st have op': "on_path ?B (arena s) p st" by simp
      have "distinct st" using d st by (simp add: distinct_butlast)
      from going_up_on_path[OF w op' this gu]
      have d': "distinct st'"
        and nx: "cw' \<longrightarrow> (\<exists>c. nn = Some c \<and> on_path ?B (arena s) c st')"
        by (auto split: if_splits)
      from bound ne bottom(2) len have "int (length (state s)) = ?B" by simp
      with g d have "\<forall>sc\<in>set (if ok then generated_scenes s @ [state s] else generated_scenes s).
                       int (length sc) = ?B \<and> distinct sc"
        by simp
      with s' w d' nx show ?thesis by (simp add: search_inv_def)
    qed
  qed
qed

lemma search_inv_reachable:
  assumes "reachable env gen nb s0 s" and "search_inv gen s0"
  shows "search_inv gen s"
  using assms by (induction rule: reachable.induct) (auto intro: search_inv_step)

text \<open>What the loop returns is a reachable state in which \<^verbatim>\<open>continue_work\<close> is false.\<close>

lemma search_loop_reachable_aux:
  assumes "search_loop env gen nb s = Some y"
  shows "\<forall>s0 s'. reachable env gen nb s0 s \<and> y = Inr s'
           \<longrightarrow> reachable env gen nb s0 s' \<and> \<not> continue_work s'"
proof (rule search_loop.raw_induct
    [where P = "\<lambda>env gen nb s y. \<forall>s0 s'. reachable env gen nb s0 s \<and> y = Inr s'
           \<longrightarrow> reachable env gen nb s0 s' \<and> \<not> continue_work s'",
      OF _ assms], goal_cases)
  case (1 loop env gen nb s y)
  show ?case
  proof (intro allI impI)
    fix s0 s' assume a: "reachable env gen nb s0 s \<and> y = Inr s'"
    show "reachable env gen nb s0 s' \<and> \<not> continue_work s'"
    proof (cases "continue_work s")
      case False
      with 1(2) a show ?thesis by simp
    next
      case True
      with 1(2) a obtain s1 where s1: "step env gen nb s = Some (Inr s1)"
        and l: "loop env gen nb s1 = Some y"
        by (auto split: option.splits sum.splits)
      from a True s1 have "reachable env gen nb s0 s1" by (auto intro: reachable_step)
      with 1(1)[OF l] a show ?thesis by blast
    qed
  qed
qed

lemma search_loop_reachable:
  assumes "search_loop env gen nb s = Some (Inr s')"
  shows "reachable env gen nb s s' \<and> \<not> continue_work s'"
  using search_loop_reachable_aux[OF assms] reachable_start by blast

lemma generate_scenes_idx_reachable:
  assumes "generate_scenes_idx env gen start nb pos = Some (Inr (scenes, pos'))"
  shows "\<exists>s. reachable env gen nb (initial_search start pos) s \<and> \<not> continue_work s
             \<and> generated_scenes s = scenes \<and> rng_pos s = pos'"
proof -
  from assms obtain s where "search_loop env gen nb (initial_search start pos) = Some (Inr s)"
    and "generated_scenes s = scenes" "rng_pos s = pos'"
    by (auto simp: generate_scenes_idx_def split: option.splits sum.splits)
  with search_loop_reachable[of env gen nb "initial_search start pos" s] show ?thesis by blast
qed

subsection \<open>Concrete runs\<close>

lemmas run_simps =
  generate_scenes_idx_def search_loop.simps step_def initial_search_def counting_env_def
  Scene_generator_def catalog_abc_def a_sound_def next_id_def next_id_loop.simps randint_def
  nb_sounds_def new_node_def get_childs_ids_def add_new_child_def add_child_def
  validate_intermediate_def validate_final_def ids_to_families_count_def py_index_def
  families_def families_count_def reached_bottom_def limit_reached_def py_pop_def
  go_up_one_level_def going_up.simps Let_def

lemma run_two_of_abc:
  "generate_scenes_idx counting_env two_of_abc 0 None 0
     = Some (Inr ([[0, 1], [0, 2], [1, 2], [1, 0]], 7))"
  by (simp add: two_of_abc_def run_simps)

text \<open>
  Claim C1. Every scene that \<^verbatim>\<open>_generate_scenes_idx\<close> returns has exactly
  \<open>nb_objects_per_scene\<close> ids and no id twice.
\<close>

theorem generated_scenes_length_distinct:
  assumes "generate_scenes_idx env gen start nb pos = Some (Inr (scenes, pos'))"
  shows "\<forall>sc\<in>set scenes. int (length sc) = nb_objects_per_scene gen \<and> distinct sc"
proof -
  from generate_scenes_idx_reachable[OF assms] obtain s
    where r: "reachable env gen nb (initial_search start pos) s"
      and g: "generated_scenes s = scenes"
    by blast
  from search_inv_reachable[OF r search_inv_initial] g show ?thesis
    by (simp add: search_inv_def)
qed

theorem generated_scenes_length_distinct_witness:
  "generate_scenes_idx counting_env two_of_abc 0 None 0
     = Some (Inr ([[0, 1], [0, 2], [1, 2], [1, 0]], 7))
   \<and> nb_objects_per_scene two_of_abc = 2
   \<and> list_all (\<lambda>sc. int (length sc) = nb_objects_per_scene two_of_abc \<and> distinct sc)
        [[0, 1], [0, 2], [1, 2], [1, 0 :: int]]"
proof -
  have "nb_objects_per_scene two_of_abc = 2" by (simp add: two_of_abc_def Scene_generator_def)
  with run_two_of_abc generated_scenes_length_distinct[OF run_two_of_abc]
  show ?thesis by (simp add: list_all_iff)
qed

lemma reachable_prepend:
  assumes "reachable env gen nb s1 s'" and "continue_work s"
    and "step env gen nb s = Some (Inr s1)"
  shows "reachable env gen nb s s'"
  using assms
proof (induction rule: reachable.induct)
  case reachable_start
  then show ?case by (auto intro: reachable.intros)
next
  case (reachable_step s2 s3)
  then show ?case by (auto intro: reachable.intros)
qed

lemma iterate_steps_reachable:
  "iterate_steps env gen nb n s = Some (Inr s') \<Longrightarrow> reachable env gen nb s s'"
proof (induction n arbitrary: s)
  case 0
  then show ?case by (simp add: reachable_start)
next
  case (Suc n)
  show ?case
  proof (cases "continue_work s")
    case False
    with Suc.prems show ?thesis by (simp add: reachable_start)
  next
    case True
    with Suc.prems obtain s1 where s1: "step env gen nb s = Some (Inr s1)"
      and it: "iterate_steps env gen nb n s1 = Some (Inr s')"
      by (auto split: option.splits sum.splits)
    from reachable_prepend[OF Suc.IH[OF it] True s1] show ?thesis .
  qed
qed

lemma iterate_steps_numeral:
  "iterate_steps env gen nb (numeral k) s =
     (if continue_work s then
        (case step env gen nb s of
           None \<Rightarrow> None
         | Some (Inl e) \<Rightarrow> Some (Inl e)
         | Some (Inr s') \<Rightarrow> iterate_steps env gen nb (pred_numeral k) s')
      else Some (Inr s))"
  by (simp add: numeral_eq_Suc)

lemmas steps_simps =
  iterate_steps_numeral iterate_steps.simps step_def initial_search_def counting_env_def
  Scene_generator_def catalog_abc_def catalog_aabb_def a_sound_def next_id_def
  next_id_loop.simps randint_def
  nb_sounds_def new_node_def get_childs_ids_def add_new_child_def add_child_def
  validate_intermediate_def validate_final_def ids_to_families_count_def py_index_def
  families_def families_count_def reached_bottom_def limit_reached_def py_pop_def
  go_up_one_level_def going_up.simps Let_def

lemma steps_to_after_rejection:
  "iterate_steps counting_env two_of_aabb None 2 (initial_search 0 0) = Some (Inr after_rejection)"
  by (simp add: two_of_aabb_def after_rejection_def steps_simps)

subsection \<open>The width of the tree\<close>

lemma width_add_child:
  assumes w: "\<forall>n\<in>set ar. int (length (childs n)) \<le> width" and "0 \<le> width"
    and "int (length (childs (ar ! c))) < width"
  shows "\<forall>n\<in>set (fst (add_child ar c sid)). int (length (childs n)) \<le> width"
proof
  fix n assume "n \<in> set (fst (add_child ar c sid))"
  then have "n \<in> insert ((ar ! c)\<lparr>childs := childs (ar ! c) @ [length ar]\<rparr>)
                   (set (ar @ [new_node (Some c) (level (ar ! c) + 1) sid]))"
    unfolding add_child_eq fst_conv using set_update_subset_insert by fastforce
  then consider "n = (ar ! c)\<lparr>childs := childs (ar ! c) @ [length ar]\<rparr>"
    | "n = new_node (Some c) (level (ar ! c) + 1) sid" | "n \<in> set ar"
    by auto
  then show "int (length (childs n)) \<le> width"
  proof cases
    case 1
    with assms(3) show ?thesis by simp
  next
    case 2
    with assms(2) show ?thesis by (simp add: new_node_def)
  next
    case 3
    with w show ?thesis by blast
  qed
qed

lemma step_arena:
  assumes "step env gen nb s = Some (Inr s')"
  shows "arena s' = arena s
         \<or> (\<exists>c new_id. next_node s = Some c
               \<and> int (length (childs (arena s ! c))) < nb_tree_branch gen
               \<and> arena s' = fst (add_child (arena s) c new_id))"
  using assms
proof (cases rule: step_cases)
  case (descend c new_id pos')
  from add_new_child_result[OF descend(5)] have "arena s' = fst (add_child (arena s) c new_id)"
    by auto
  with descend show ?thesis by blast
next
  case (up c)
  then show ?thesis by (simp add: go_up_one_level_def split: option.splits)
next
  case (bottom c)
  from reached_bottom_result[OF bottom(3)] have "arena s' = arena s"
    by (auto split: if_splits)
  then show ?thesis by simp
qed

lemma width_reachable:
  assumes "reachable env gen nb s0 s" and "0 \<le> nb_tree_branch gen"
    and "\<forall>n\<in>set (arena s0). int (length (childs n)) \<le> nb_tree_branch gen"
  shows "\<forall>n\<in>set (arena s). int (length (childs n)) \<le> nb_tree_branch gen"
  using assms
proof (induction rule: reachable.induct)
  case reachable_start
  then show ?case by simp
next
  case (reachable_step s s')
  from step_arena[OF reachable_step(3)] reachable_step(4)[OF reachable_step(5,6)]
    reachable_step(5)
  show ?case by (auto intro: width_add_child[rule_format])
qed

text \<open>
  Claim C7. For a tree width that is not negative: at every iteration of the search, every
  node created so far has at most \<open>nb_tree_branch\<close> children. A drawn candidate becomes
  a child of the current node before the intermediate validation runs, and stays one when
  the validation rejects it: the search then remains at the current node, with the state it
  had, and one more of its slots taken.
\<close>

theorem children_within_tree_width:
  assumes "0 \<le> nb_tree_branch gen"
    and "reachable env gen nb (initial_search start pos) s"
  shows "(\<forall>n\<in>set (arena s). int (length (childs n)) \<le> nb_tree_branch gen)
         \<and> (\<forall>c new_id pos' s'.
               continue_work s \<and> next_node s = Some c
               \<and> add_new_child env gen s c new_id pos' = Inr s'
               \<longrightarrow> childs (arena s' ! c) = childs (arena s ! c) @ [length (arena s)]
                   \<and> sound_id (arena s' ! length (arena s)) = new_id
                   \<and> (validate_intermediate (set_order env) (primary_sounds gen)
                         (gen_constraints gen) (nb_objects_per_scene gen) (state s @ [new_id])
                         (level (arena s ! c) + 1) = Inr False
                       \<longrightarrow> next_node s' = Some c \<and> state s' = state s))"
proof (intro conjI allI impI)
  have "\<forall>n\<in>set (arena (initial_search start pos)). int (length (childs n)) \<le> nb_tree_branch gen"
    using assms(1) by (simp add: initial_search_def new_node_def)
  from width_reachable[OF assms(2,1) this]
  show "\<forall>n\<in>set (arena s). int (length (childs n)) \<le> nb_tree_branch gen" .
next
  fix c new_id pos' s'
  assume a: "continue_work s \<and> next_node s = Some c
             \<and> add_new_child env gen s c new_id pos' = Inr s'"
  from search_inv_reachable[OF assms(2) search_inv_initial] a
  have cl: "c < length (arena s)" by (auto simp: search_inv_def on_path_def)
  from a add_new_child_result[of env gen s c new_id pos' s'] obtain ok where
    v: "validate_intermediate (set_order env) (primary_sounds gen) (gen_constraints gen)
          (nb_objects_per_scene gen) (state s @ [new_id])
          (level (fst (add_child (arena s) c new_id) ! length (arena s))) = Inr ok"
    and s': "s' = s\<lparr>arena := fst (add_child (arena s) c new_id),
                      next_node := Some (if ok then length (arena s) else c),
                      state := (if ok then state s @ [new_id] else state s),
                      rng_pos := pos'\<rparr>"
    by blast
  have lv: "level (fst (add_child (arena s) c new_id) ! length (arena s)) = level (arena s ! c) + 1"
    by (simp add: add_child_new[OF cl] new_node_def)
  show "childs (arena s' ! c) = childs (arena s ! c) @ [length (arena s)]"
    using s' add_child_old(4)[OF cl, of c new_id] by simp
  show "sound_id (arena s' ! length (arena s)) = new_id"
    using s' by (simp add: add_child_new[OF cl] new_node_def)
  assume "validate_intermediate (set_order env) (primary_sounds gen)
            (gen_constraints gen) (nb_objects_per_scene gen) (state s @ [new_id])
            (level (arena s ! c) + 1) = Inr False"
  with v lv have "\<not> ok" by simp
  with s' show "next_node s' = Some c" "state s' = state s" by simp_all
qed

lemma steps_to_before_rejection:
  "iterate_steps counting_env two_of_aabb None 1 (initial_search 0 0) = Some (Inr before_rejection)"
  by (simp add: two_of_aabb_def before_rejection_def steps_simps)

lemma rejection_step:
  "add_new_child counting_env two_of_aabb before_rejection 1 1 2 = Inr after_rejection"
  by (simp add: two_of_aabb_def before_rejection_def after_rejection_def steps_simps)

lemma rejection_verdict:
  "validate_intermediate (set_order counting_env) (primary_sounds two_of_aabb)
     (gen_constraints two_of_aabb) (nb_objects_per_scene two_of_aabb)
     (state before_rejection @ [1]) (level (arena before_rejection ! 1) + 1) = Inr False"
  by (simp add: two_of_aabb_def before_rejection_def steps_simps)

text \<open>In the run of \<open>two_of_aabb\<close>, sound 1 is drawn under the node of sound 0 and
  rejected: the node keeps it as its child, and the search stays at the node.\<close>

theorem children_within_tree_width_witness:
  "0 \<le> nb_tree_branch two_of_aabb
   \<and> reachable counting_env two_of_aabb None (initial_search 0 0) before_rejection
   \<and> reachable counting_env two_of_aabb None (initial_search 0 0) after_rejection
   \<and> list_all (\<lambda>n. int (length (childs n)) \<le> nb_tree_branch two_of_aabb)
        (arena after_rejection)
   \<and> childs (arena before_rejection ! 1) = []
   \<and> childs (arena after_rejection ! 1) = [2]
   \<and> sound_id (arena after_rejection ! 2) = 1
   \<and> next_node after_rejection = Some 1 \<and> state after_rejection = [0]"
proof -
  have w: "0 \<le> nb_tree_branch two_of_aabb"
    by (simp add: two_of_aabb_def Scene_generator_def)
  have r1: "reachable counting_env two_of_aabb None (initial_search 0 0) before_rejection"
    by (rule iterate_steps_reachable[OF steps_to_before_rejection])
  have r2: "reachable counting_env two_of_aabb None (initial_search 0 0) after_rejection"
    by (rule iterate_steps_reachable[OF steps_to_after_rejection])
  have b: "continue_work before_rejection \<and> next_node before_rejection = Some 1
           \<and> add_new_child counting_env two_of_aabb before_rejection 1 1 2 = Inr after_rejection"
    using rejection_step by (simp add: before_rejection_def)
  have l: "length (arena before_rejection) = 2" "childs (arena before_rejection ! 1) = []"
    by (simp_all add: before_rejection_def)
  from children_within_tree_width[OF w r2]
  have all: "\<forall>n\<in>set (arena after_rejection).
               int (length (childs n)) \<le> nb_tree_branch two_of_aabb"
    by blast
  from children_within_tree_width[OF w r1] b rejection_verdict
  have "childs (arena after_rejection ! 1)
          = childs (arena before_rejection ! 1) @ [length (arena before_rejection)]
        \<and> sound_id (arena after_rejection ! length (arena before_rejection)) = 1
        \<and> next_node after_rejection = Some 1
        \<and> state after_rejection = state before_rejection"
    by blast
  moreover have "state before_rejection = [0]" by (simp add: before_rejection_def)
  ultimately show ?thesis using w r1 r2 all l by (simp add: list_all_iff)
qed

subsection \<open>The scenes a run emits\<close>

lemma step_generated:
  assumes "step env gen nb s = Some (Inr s')"
  shows "(generated_scenes s' = generated_scenes s \<and> start_index s' = start_index s)
         \<or> (validate_final (set_order env) (primary_sounds gen) (gen_constraints gen) (state s)
               = Inr True
             \<and> \<not> limit_reached nb (start_index s)
             \<and> generated_scenes s' = generated_scenes s @ [state s]
             \<and> start_index s' = start_index s + 1)"
  using assms
proof (cases rule: step_cases)
  case (descend c new_id pos')
  from add_new_child_result[OF descend(5)] show ?thesis by auto
next
  case (up c)
  then show ?thesis by (simp add: go_up_one_level_def split: option.splits)
next
  case (bottom c)
  from reached_bottom_result[OF bottom(3)] obtain ok where
    v: "validate_final (set_order env) (primary_sounds gen) (gen_constraints gen) (state s)
          = Inr ok"
    and r: "if ok \<and> limit_reached nb (start_index s) then s' = s\<lparr>continue_work := False\<rparr>
          else \<exists>st p nn st' cw.
                 py_pop (state s) = Inr st \<and> parent (arena s ! c) = Some p
                 \<and> going_up (arena s) (nb_tree_branch gen) p st = Inr (nn, st', cw)
                 \<and> s' = s\<lparr>start_index := (if ok then start_index s + 1 else start_index s),
                           generated_scenes :=
                             (if ok then generated_scenes s @ [state s]
                              else generated_scenes s),
                           next_node := nn, state := st', continue_work := cw\<rparr>"
    by blast
  show ?thesis
  proof (cases "ok \<and> limit_reached nb (start_index s)")
    case True
    with r show ?thesis by simp
  next
    case False
    with r obtain nn st' cw where
      "s' = s\<lparr>start_index := (if ok then start_index s + 1 else start_index s),
               generated_scenes :=
                 (if ok then generated_scenes s @ [state s] else generated_scenes s),
               next_node := nn, state := st', continue_work := cw\<rparr>"
      by auto
    with v False show ?thesis by (cases ok) simp_all
  qed
qed

text \<open>A state cannot hold more families than the catalogue has.\<close>

lemma ids_to_families_count_nb:
  assumes "ids_to_families_count ord cat st = Inr (fc, nb)"
  shows "nb \<le> nb_families cat"
proof -
  from assms obtain cnt where c: "count_ids cat st [] = Inr cnt" and nb: "nb = length (map fst cnt)"
    by (auto simp: ids_to_families_count_def Let_def split: sum.splits)
  have v: "\<forall>i\<in>set st. valid_id cat i"
  proof (rule ccontr)
    assume "\<not> (\<forall>i\<in>set st. valid_id cat i)"
    from count_ids_invalid[OF this] c show False by simp
  qed
  from count_ids_valid[OF v, of "[]"] c
  have cnt: "cnt = foldl count_family [] (map (family_of cat) st)" by simp
  have d: "distinct (map fst cnt)" unfolding cnt by (rule foldl_count_family_distinct) simp
  have "set (map fst cnt) = family_of cat ` set st"
    unfolding cnt by (simp add: foldl_count_family_keys)
  also have "\<dots> \<subseteq> set (families cat)" using v family_of_in_families by auto
  finally have "card (set (map fst cnt)) \<le> card (set (families cat))"
    by (simp add: card_mono)
  with distinct_card[OF d] distinct_card[OF distinct_families[of cat]] nb
  show ?thesis by (simp add: nb_families_def)
qed

lemma validate_final_needs_families:
  assumes "validate_final ord cat cons st = Inr True"
  shows "min_nb_families cons \<le> int (nb_families cat)"
proof -
  from assms obtain fc nb where h: "ids_to_families_count ord cat st = Inr (fc, nb)"
    and "\<not> int nb < min_nb_families cons"
    by (auto simp: validate_final_def split: sum.splits if_splits)
  with ids_to_families_count_nb[OF h] show ?thesis by simp
qed

lemma no_scene_reachable:
  assumes "reachable env gen nb s0 s"
    and "int (nb_families (primary_sounds gen)) < min_nb_families (gen_constraints gen)"
    and "generated_scenes s0 = []"
  shows "generated_scenes s = []"
  using assms
proof (induction rule: reachable.induct)
  case reachable_start
  then show ?case by simp
next
  case (reachable_step s s')
  from step_generated[OF reachable_step(3)]
    validate_final_needs_families[of "set_order env" "primary_sounds gen" "gen_constraints gen"
      "state s"]
    reachable_step(4)[OF reachable_step(5,6)] reachable_step(5)
  show ?case by auto
qed

lemma nb_families_catalog_abc: "nb_families catalog_abc = 3"
  by (simp add: nb_families_def families_def families_count_def catalog_abc_def a_sound_def)

lemma run_four_families_of_abc:
  "generate_scenes_idx counting_env four_families_of_abc 0 None 0 = Some (Inr ([], 1))"
  by (simp add: four_families_of_abc_def run_simps)

lemma first_step_four_families_of_abc:
  "map_option (map_sum id (\<lambda>s. (length (arena s), rng_pos s)))
     (iterate_steps counting_env four_families_of_abc None 1 (initial_search 0 0))
   = Some (Inr (2, 1))"
  by (simp add: four_families_of_abc_def steps_simps)

text \<open>
  Claim C9, as the code has it. Nothing checks the constraints against the catalogue before
  the search (\<^verbatim>\<open>Scene_generator.__init__\<close> stores them and cannot fail). When
  \<open>min_nb_families\<close> exceeds the number of families of the catalogue, the search runs,
  and no state it passes through holds a scene: if it returns, it returns no scene.
\<close>

theorem no_scene_when_families_missing:
  assumes "int (nb_families (primary_sounds gen)) < min_nb_families (gen_constraints gen)"
  shows "(\<forall>s. reachable env gen nb (initial_search start pos) s \<longrightarrow> generated_scenes s = [])
         \<and> (\<forall>scenes pos'. generate_scenes_idx env gen start nb pos = Some (Inr (scenes, pos'))
               \<longrightarrow> scenes = [])"
proof (intro conjI allI impI)
  fix s assume "reachable env gen nb (initial_search start pos) s"
  from no_scene_reachable[OF this assms] show "generated_scenes s = []"
    by (simp add: initial_search_def)
next
  fix scenes pos'
  assume "generate_scenes_idx env gen start nb pos = Some (Inr (scenes, pos'))"
  from generate_scenes_idx_reachable[OF this] obtain s
    where r: "reachable env gen nb (initial_search start pos) s"
      and g: "generated_scenes s = scenes"
    by blast
  from no_scene_reachable[OF r assms] g show "scenes = []" by (simp add: initial_search_def)
qed

theorem no_scene_when_families_missing_witness:
  "int (nb_families (primary_sounds four_families_of_abc))
     < min_nb_families (gen_constraints four_families_of_abc)
   \<and> reachable counting_env four_families_of_abc None (initial_search 0 0) (initial_search 0 0)
   \<and> generated_scenes (initial_search 0 0) = []
   \<and> (\<exists>pos'. generate_scenes_idx counting_env four_families_of_abc 0 None 0
                = Some (Inr ([], pos')))"
proof -
  have h: "int (nb_families (primary_sounds four_families_of_abc))
             < min_nb_families (gen_constraints four_families_of_abc)"
    by (simp add: four_families_of_abc_def Scene_generator_def nb_families_catalog_abc)
  have r: "reachable counting_env four_families_of_abc None (initial_search 0 0)
             (initial_search 0 0)"
    by (rule reachable_start)
  obtain scenes pos' where
    run: "generate_scenes_idx counting_env four_families_of_abc 0 None 0
            = Some (Inr (scenes, pos'))"
    using run_four_families_of_abc by blast
  from no_scene_when_families_missing[OF h, of counting_env None 0 0] r run
  have "generated_scenes (initial_search 0 0) = []" "scenes = []" by blast+
  with h r run show ?thesis by blast
qed

text \<open>Against the claim as the specification words it: with four families required of a
  catalogue of three, the first iteration draws a sound and creates its node, and the run
  returns an empty list of scenes, not an error.\<close>

theorem infeasible_constraints_counterexample:
  "int (nb_families (primary_sounds four_families_of_abc))
     < min_nb_families (gen_constraints four_families_of_abc)
   \<and> map_option (map_sum id (\<lambda>s. (length (arena s), rng_pos s)))
       (iterate_steps counting_env four_families_of_abc None 1 (initial_search 0 0))
     = Some (Inr (2, 1))
   \<and> generate_scenes_idx counting_env four_families_of_abc 0 None 0 = Some (Inr ([], 1))"
  using run_four_families_of_abc first_step_four_families_of_abc
  by (simp add: four_families_of_abc_def Scene_generator_def nb_families_catalog_abc)

subsection \<open>The limit on the number of scenes\<close>

lemma start_index_reachable:
  assumes "reachable env gen nb s0 s"
    and "start_index s0 = start + int (length (generated_scenes s0))"
  shows "start_index s = start + int (length (generated_scenes s))"
  using assms
proof (induction rule: reachable.induct)
  case reachable_start
  then show ?case by simp
next
  case (reachable_step s s')
  from step_generated[OF reachable_step(3)] reachable_step(4)[OF reachable_step(5)]
  show ?case by auto
qed

lemma limit_reachable:
  assumes "reachable env gen (Some cap) s0 s" and "cap \<noteq> 0"
    and "start_index s0 \<le> max start cap"
  shows "start_index s \<le> max start cap"
  using assms
proof (induction rule: reachable.induct)
  case reachable_start
  then show ?case by simp
next
  case (reachable_step s s')
  from step_generated[OF reachable_step(3)] reachable_step(4)[OF reachable_step(5,6)]
    reachable_step(5)
  show ?case by (auto simp: limit_reached_def)
qed

lemma halt_reason:
  assumes inv: "search_inv gen s" and cw: "continue_work s"
    and st: "step env gen nb s = Some (Inr s')" and halt: "\<not> continue_work s'"
  shows "(\<exists>c. next_node s = Some c \<and> \<not> level (arena s ! c) < nb_objects_per_scene gen - 1
              \<and> validate_final (set_order env) (primary_sounds gen) (gen_constraints gen)
                   (state s) = Inr True
              \<and> limit_reached nb (start_index s) \<and> s' = s\<lparr>continue_work := False\<rparr>)
         \<or> nb_tree_branch gen \<le> int (length (childs (arena s' ! 0)))"
proof -
  let ?B = "nb_objects_per_scene gen"
  from inv cw obtain c where c: "next_node s = Some c"
    and op: "on_path ?B (arena s) c (state s)"
    by (auto simp: search_inv_def)
  from inv have w: "wf_arena (arena s)" and d: "distinct (state s)"
    by (simp_all add: search_inv_def)
  from op have cl: "c < length (arena s)" by (simp add: on_path_def)
  from st show ?thesis
  proof (cases rule: step_cases)
    case (descend c' new_id pos')
    from add_new_child_result[OF descend(5)] cw halt show ?thesis by auto
  next
    case (up c')
    with c have [simp]: "c' = c" by simp
    show ?thesis
    proof (cases "parent (arena s ! c)")
      case None
      from wf_arena_root[OF w cl None] up(3,4) None show ?thesis
        by (simp add: go_up_one_level_def)
    next
      case (Some p)
      with up(4) cw halt show ?thesis by (simp add: go_up_one_level_def)
    qed
  next
    case (bottom c')
    with c have [simp]: "c' = c" by simp
    from reached_bottom_result[OF bottom(3)[simplified]] obtain ok where
      v: "validate_final (set_order env) (primary_sounds gen) (gen_constraints gen) (state s)
            = Inr ok"
      and r: "if ok \<and> limit_reached nb (start_index s) then s' = s\<lparr>continue_work := False\<rparr>
          else \<exists>st p nn st' cw.
                 py_pop (state s) = Inr st \<and> parent (arena s ! c) = Some p
                 \<and> going_up (arena s) (nb_tree_branch gen) p st = Inr (nn, st', cw)
                 \<and> s' = s\<lparr>start_index := (if ok then start_index s + 1 else start_index s),
                           generated_scenes :=
                             (if ok then generated_scenes s @ [state s]
                              else generated_scenes s),
                           next_node := nn, state := st', continue_work := cw\<rparr>"
      by blast
    show ?thesis
    proof (cases "ok \<and> limit_reached nb (start_index s)")
      case True
      with r v c bottom(2) show ?thesis by auto
    next
      case False
      with r obtain st p nn st' cw' where pop: "py_pop (state s) = Inr st"
        and par: "parent (arena s ! c) = Some p"
        and gu: "going_up (arena s) (nb_tree_branch gen) p st = Inr (nn, st', cw')"
        and s': "s' = s\<lparr>start_index := (if ok then start_index s + 1 else start_index s),
                           generated_scenes :=
                             (if ok then generated_scenes s @ [state s]
                              else generated_scenes s),
                           next_node := nn, state := st', continue_work := cw'\<rparr>"
        by auto
      from pop have st: "st = butlast (state s)" by (auto simp: py_pop_def split: if_splits)
      from on_path_parent[OF w op par] st have op': "on_path ?B (arena s) p st" by simp
      have "distinct st" using d st by (simp add: distinct_butlast)
      from going_up_on_path[OF w op' this gu] s' halt
      have "nb_tree_branch gen \<le> int (length (childs (arena s ! 0)))" by (auto split: if_splits)
      with s' show ?thesis by simp
    qed
  qed
qed

lemma limit_halts:
  assumes "next_node s = Some c" and "\<not> level (arena s ! c) < nb_objects_per_scene gen - 1"
    and "validate_final (set_order env) (primary_sounds gen) (gen_constraints gen) (state s)
           = Inr True"
    and "limit_reached nb (start_index s)"
  shows "step env gen nb s = Some (Inr (s\<lparr>continue_work := False\<rparr>))"
  using assms by (simp add: step_def reached_bottom_def)

text \<open>
  Claim C5, as the code has it. The limit \<open>nb_to_generate\<close> (when it is set and not 0) is
  compared with \<open>start_index\<close>, which counts the scenes emitted from its first value on,
  only at a leaf that passes the final validation: such a leaf, reached once
  \<open>start_index\<close> is not below the limit, ends the loop and is not emitted. Until then the
  search goes on descending and going up, also after the last scene it emits. The loop ends
  normally for one of two reasons only: this test, or the root having all its slots taken.
  The scenes emitted number at most the limit minus the first \<open>start_index\<close>.
\<close>

theorem limit_checked_at_valid_leaf:
  assumes "reachable env gen nb (initial_search start pos) s"
  shows "start_index s = start + int (length (generated_scenes s))
         \<and> (\<forall>cap. nb = Some cap \<and> cap \<noteq> 0
               \<longrightarrow> int (length (generated_scenes s)) \<le> max 0 (cap - start))
         \<and> (\<forall>c. continue_work s \<and> next_node s = Some c
                \<and> \<not> level (arena s ! c) < nb_objects_per_scene gen - 1
                \<and> validate_final (set_order env) (primary_sounds gen) (gen_constraints gen)
                     (state s) = Inr True
                \<and> limit_reached nb (start_index s)
               \<longrightarrow> step env gen nb s = Some (Inr (s\<lparr>continue_work := False\<rparr>)))
         \<and> (\<forall>s'. continue_work s \<and> step env gen nb s = Some (Inr s') \<and> \<not> continue_work s'
               \<longrightarrow> (\<exists>c. next_node s = Some c
                        \<and> \<not> level (arena s ! c) < nb_objects_per_scene gen - 1
                        \<and> validate_final (set_order env) (primary_sounds gen)
                             (gen_constraints gen) (state s) = Inr True
                        \<and> limit_reached nb (start_index s)
                        \<and> s' = s\<lparr>continue_work := False\<rparr>)
                   \<or> nb_tree_branch gen \<le> int (length (childs (arena s' ! 0))))"
proof (intro conjI allI impI)
  show si: "start_index s = start + int (length (generated_scenes s))"
    by (rule start_index_reachable[OF assms]) (simp add: initial_search_def)
  fix cap assume c: "nb = Some cap \<and> cap \<noteq> 0"
  with assms have "reachable env gen (Some cap) (initial_search start pos) s" by simp
  from limit_reachable[OF this, of start] c have "start_index s \<le> max start cap"
    by (simp add: initial_search_def)
  with si show "int (length (generated_scenes s)) \<le> max 0 (cap - start)" by simp
next
  fix c
  assume "continue_work s \<and> next_node s = Some c
          \<and> \<not> level (arena s ! c) < nb_objects_per_scene gen - 1
          \<and> validate_final (set_order env) (primary_sounds gen) (gen_constraints gen)
               (state s) = Inr True
          \<and> limit_reached nb (start_index s)"
  then show "step env gen nb s = Some (Inr (s\<lparr>continue_work := False\<rparr>))"
    by (simp add: limit_halts)
next
  fix s'
  assume "continue_work s \<and> step env gen nb s = Some (Inr s') \<and> \<not> continue_work s'"
  with halt_reason[OF search_inv_reachable[OF assms search_inv_initial], of env nb s']
  show "(\<exists>c. next_node s = Some c
            \<and> \<not> level (arena s ! c) < nb_objects_per_scene gen - 1
            \<and> validate_final (set_order env) (primary_sounds gen)
                 (gen_constraints gen) (state s) = Inr True
            \<and> limit_reached nb (start_index s)
            \<and> s' = s\<lparr>continue_work := False\<rparr>)
        \<or> nb_tree_branch gen \<le> int (length (childs (arena s' ! 0)))"
    by blast
qed

lemma steps_to_second_leaf:
  "iterate_steps counting_env one_of_abc (Some 1) 3 (initial_search 0 0) = Some (Inr second_leaf)"
  by (simp add: one_of_abc_def second_leaf_def steps_simps)

lemma second_leaf_valid:
  "validate_final (set_order counting_env) (primary_sounds one_of_abc)
     (gen_constraints one_of_abc) (state second_leaf) = Inr True"
  by (simp add: one_of_abc_def second_leaf_def steps_simps)

text \<open>With a limit of one scene, the search is at its second leaf when one scene is
  emitted; the leaf is valid and the limit reached, and the loop ends there.\<close>

theorem limit_checked_at_valid_leaf_witness:
  "reachable counting_env one_of_abc (Some 1) (initial_search 0 0) second_leaf
   \<and> generated_scenes second_leaf = [[0]]
   \<and> start_index second_leaf = 0 + int (length (generated_scenes second_leaf))
   \<and> int (length (generated_scenes second_leaf)) \<le> max 0 (1 - 0)
   \<and> limit_reached (Some 1) (start_index second_leaf)
   \<and> step counting_env one_of_abc (Some 1) second_leaf
       = Some (Inr (second_leaf\<lparr>continue_work := False\<rparr>))"
proof -
  have r: "reachable counting_env one_of_abc (Some 1) (initial_search 0 0) second_leaf"
    by (rule iterate_steps_reachable[OF steps_to_second_leaf])
  have l: "limit_reached (Some 1) (start_index second_leaf)"
    by (simp add: limit_reached_def second_leaf_def)
  have f: "continue_work second_leaf \<and> next_node second_leaf = Some 2
           \<and> \<not> level (arena second_leaf ! 2) < nb_objects_per_scene one_of_abc - 1"
    by (simp add: second_leaf_def one_of_abc_def Scene_generator_def)
  have g: "generated_scenes second_leaf = [[0]]" by (simp add: second_leaf_def)
  note t = limit_checked_at_valid_leaf[OF r]
  have a: "start_index second_leaf = 0 + int (length (generated_scenes second_leaf))"
    by (rule t[THEN conjunct1])
  have b: "int (length (generated_scenes second_leaf)) \<le> max 0 (1 - 0)"
    by (rule t[THEN conjunct2, THEN conjunct1, rule_format, of 1]) simp
  have d: "step counting_env one_of_abc (Some 1) second_leaf
           = Some (Inr (second_leaf\<lparr>continue_work := False\<rparr>))"
    by (rule t[THEN conjunct2, THEN conjunct2, THEN conjunct1, rule_format, of 2])
       (use f second_leaf_valid l in blast)
  show ?thesis by (intro conjI r g a b l d)
qed

text \<open>Against the claim as the specification words it: with a limit of one scene, after
  two iterations one scene is emitted and the loop continues; the third iteration draws a
  sound and creates a node; the fourth ends the loop.\<close>

theorem limit_not_immediate_counterexample:
  "progress (iterate_steps counting_env one_of_abc (Some 1) 2 (initial_search 0 0))
     = Some (Inr (1, True, 2, 1))
   \<and> progress (iterate_steps counting_env one_of_abc (Some 1) 3 (initial_search 0 0))
     = Some (Inr (1, True, 3, 2))
   \<and> progress (iterate_steps counting_env one_of_abc (Some 1) 4 (initial_search 0 0))
     = Some (Inr (1, False, 3, 2))"
  by (simp add: progress_def one_of_abc_def steps_simps)

section \<open>The intermediate validation as a test of feasibility\<close>

lemma validate_final_counts:
  assumes "is_reordering ord" and "\<forall>i\<in>set st. valid_id cat i"
  shows "validate_final ord cat cons st =
         Inr (min_nb_families cons \<le> int (nb_distinct_families cat st)
              \<and> min_nb_families_subject_to_min_objects_per_family cons
                   \<le> int (nb_families_meeting_quota cat cons st))"
proof -
  obtain fc where h: "ids_to_families_count ord cat st = Inr (fc, card (set (state_families cat st)))"
    and ms: "mset (map fst fc) = mset (families cat)"
    and vals: "\<forall>(f, c) \<in> set fc. c = count_list (state_families cat st) f"
    using ids_to_families_count_valid[OF assms(2) assms(1)] by blast
  have "card (set (state_families cat st)) = nb_distinct_families cat st"
    by (simp add: nb_distinct_families_def length_remdups_card_conv)
  then show ?thesis
    unfolding validate_final_histogram[OF h] quota_count[OF ms vals] by simp
qed

lemma validate_final_invalid:
  "\<not> (\<forall>i\<in>set st. valid_id cat i) \<Longrightarrow> validate_final ord cat cons st = Inl IndexError"
  by (simp add: validate_final_def ids_to_families_count_invalid)

lemma validate_intermediate_invalid:
  "\<not> (\<forall>i\<in>set st. valid_id cat i) \<Longrightarrow>
   validate_intermediate ord cat cons nb_objects st d = Inl IndexError"
  by (simp add: validate_intermediate_def ids_to_families_count_invalid)

lemma length_filter_snd:
  "length (filter (\<lambda>(fam, c). P c) fc) = length (filter P (map snd fc))"
  by (induction fc) auto

lemma validate_intermediate_counts:
  assumes "is_reordering ord" and "\<forall>i\<in>set st. valid_id cat i"
  shows "validate_intermediate ord cat cons nb_objects st d =
         Inr (\<not> lower_bound_tests_reject cat cons nb_objects st d
              \<and> \<not> third_test_rejects cat cons nb_objects st d)"
proof -
  obtain fc where h: "ids_to_families_count ord cat st = Inr (fc, card (set (state_families cat st)))"
    and ms: "mset (map fst fc) = mset (families cat)"
    and vals: "\<forall>(f, c) \<in> set fc. c = count_list (state_families cat st) f"
    using ids_to_families_count_valid[OF assms(2) assms(1)] by blast
  have n: "card (set (state_families cat st)) = nb_distinct_families cat st"
    by (simp add: nb_distinct_families_def length_remdups_card_conv)
  have v: "length (filter (\<lambda>(fam, c). min_objects_per_family cons \<le> int c) fc)
           = nb_families_meeting_quota cat cons st"
    unfolding length_filter_snd by (rule quota_count[OF ms vals])
  show ?thesis
    unfolding validate_intermediate_def h lower_bound_tests_reject_def third_test_rejects_def
    by (simp add: Let_def n v)
qed

text \<open>One more id adds at most one family to the state, and brings at most one family to
  the quota.\<close>

lemma state_families_append:
  "state_families cat (st @ ext) = state_families cat st @ state_families cat ext"
  by (simp add: state_families_def)

lemma nb_distinct_families_append:
  "nb_distinct_families cat (st @ ext) \<le> nb_distinct_families cat st + length ext"
proof -
  have "card (set (state_families cat st) \<union> set (state_families cat ext))
        \<le> card (set (state_families cat st)) + card (set (state_families cat ext))"
    by (rule card_Un_le)
  also have "card (set (state_families cat ext)) \<le> length ext"
    using card_length[of "state_families cat ext"] by (simp add: state_families_def)
  finally show ?thesis
    by (simp add: nb_distinct_families_def length_remdups_card_conv state_families_append)
qed

text \<open>The families that an extension brings to the quota.\<close>

lemma newly_meeting_quota:
  fixes cat :: catalog and cons :: constraints and fs es :: "string list"
  defines "F \<equiv> set (remdups (map instrument_family cat))"
  defines "A \<equiv> {fam. min_objects_per_family cons \<le> int (count_list fs fam)} \<inter> F"
  defines "A' \<equiv> {fam. min_objects_per_family cons \<le> int (count_list (fs @ es) fam)} \<inter> F"
  shows "finite (A' - A)" and "card A' \<le> card A + card (A' - A)"
    and "card (A' - A) \<le> length es"
    and "0 \<le> min_objects_per_family cons \<Longrightarrow>
         \<forall>fam\<in>set fs. min_objects_per_family cons \<le> int (count_list fs fam) \<Longrightarrow>
         min_objects_per_family cons * int (card (A' - A)) \<le> int (length es)"
proof -
  have fin: "finite A" "finite A'" by (simp_all add: A_def A'_def F_def)
  then show fN: "finite (A' - A)" by simp
  have "A' \<subseteq> A \<union> (A' - A)" by blast
  then have "card A' \<le> card (A \<union> (A' - A))" using fin by (simp add: card_mono)
  also have "\<dots> \<le> card A + card (A' - A)" by (rule card_Un_le)
  finally show "card A' \<le> card A + card (A' - A)" .
  have sub: "A' - A \<subseteq> set es"
  proof
    fix fam assume "fam \<in> A' - A"
    then have "count_list es fam \<noteq> 0" by (auto simp: A_def A'_def)
    then show "fam \<in> set es" by (simp add: count_list_0_iff)
  qed
  then have "card (A' - A) \<le> card (set es)" by (simp add: card_mono)
  also have "\<dots> \<le> length es" by (rule card_length)
  finally show "card (A' - A) \<le> length es" .
  assume q0: "0 \<le> min_objects_per_family cons"
    and scratch: "\<forall>fam\<in>set fs. min_objects_per_family cons \<le> int (count_list fs fam)"
  have each: "nat (min_objects_per_family cons) \<le> count_list es fam" if "fam \<in> A' - A" for fam
  proof -
    from that have a: "min_objects_per_family cons \<le> int (count_list fs fam + count_list es fam)"
      and b: "\<not> min_objects_per_family cons \<le> int (count_list fs fam)"
      by (auto simp: A_def A'_def)
    from b scratch have "fam \<notin> set fs" by blast
    then have "count_list fs fam = 0" by (simp add: count_list_0_iff)
    with a show ?thesis by simp
  qed
  have "card (A' - A) * nat (min_objects_per_family cons) \<le> sum (count_list es) (A' - A)"
    using sum_bounded_below[of "A' - A" "nat (min_objects_per_family cons)" "count_list es"] each
    by simp
  also have "\<dots> \<le> sum (count_list es) (set es)"
    by (rule sum_mono2) (use sub in auto)
  also have "\<dots> = length es" by (rule sum_count_set) simp_all
  finally have le: "card (A' - A) * nat (min_objects_per_family cons) \<le> length es" .
  have "min_objects_per_family cons * int (card (A' - A))
        = int (card (A' - A) * nat (min_objects_per_family cons))"
    using q0 by (simp add: mult.commute)
  also have "\<dots> \<le> int (length es)" using le by (rule of_nat_le_iff[THEN iffD2])
  finally show "min_objects_per_family cons * int (card (A' - A)) \<le> int (length es)" .
qed

lemma nb_families_meeting_quota_card:
  "nb_families_meeting_quota cat cons st =
     card ({fam. min_objects_per_family cons \<le> int (count_list (state_families cat st) fam)}
            \<inter> set (remdups (map instrument_family cat)))"
  unfolding nb_families_meeting_quota_def by (rule distinct_length_filter) simp

text \<open>
  Claim C3, as the code has it. When \<^verbatim>\<open>validate_intermediate\<close> returns \<^verbatim>\<open>False\<close> for a
  state at level \<open>d\<close> because of one of its first two tests, no extension of the state by
  at most \<open>nb_objects_per_scene - d - 1\<close> ids passes \<^verbatim>\<open>validate_final\<close>. For a rejection
  by the third test this holds when every family that occurs in the state has already
  reached \<open>min_objects_per_family\<close> (which is not negative); otherwise the third test can
  reject a state that still has a valid completion.
\<close>

theorem intermediate_rejection_sound:
  assumes r: "is_reordering ord"
    and rej: "validate_intermediate ord cat cons nb_objects st d = Inr False"
    and why: "lower_bound_tests_reject cat cons nb_objects st d \<or> quota_from_scratch cat cons st"
    and len: "int (length ext) \<le> nb_objects - d - 1"
  shows "validate_final ord cat cons (st @ ext) \<noteq> Inr True"
proof
  assume fin: "validate_final ord cat cons (st @ ext) = Inr True"
  define q where "q = min_objects_per_family cons"
  define m where "m = min_nb_families_subject_to_min_objects_per_family cons"
  define togo where "togo = nb_objects - d - 1"
  define F where "F = set (remdups (map instrument_family cat))"
  define A where "A = {fam. q \<le> int (count_list (state_families cat st) fam)} \<inter> F"
  define A' where
    "A' = {fam. q \<le> int (count_list (state_families cat st @ state_families cat ext) fam)} \<inter> F"
  have v': "\<forall>i\<in>set (st @ ext). valid_id cat i"
    using fin validate_final_invalid[of "st @ ext" cat ord cons] by auto
  have v: "\<forall>i\<in>set st. valid_id cat i"
    using rej validate_intermediate_invalid[of st cat ord cons nb_objects d] by auto
  from fin validate_final_counts[OF r v', of cons]
  have f1: "min_nb_families cons \<le> int (nb_distinct_families cat (st @ ext))"
    and f2: "m \<le> int (nb_families_meeting_quota cat cons (st @ ext))"
    by (simp_all add: m_def)
  have V: "nb_families_meeting_quota cat cons st = card A"
    by (simp add: nb_families_meeting_quota_card A_def F_def q_def)
  have V': "nb_families_meeting_quota cat cons (st @ ext) = card A'"
    by (simp add: nb_families_meeting_quota_card A'_def F_def q_def state_families_append)
  note nm = newly_meeting_quota[where cat = cat and cons = cons
      and fs = "state_families cat st" and es = "state_families cat ext"]
  have lext: "length (state_families cat ext) = length ext" by (simp add: state_families_def)
  have c1: "int (card A') \<le> int (card A) + int (card (A' - A))"
    using nm(2) unfolding A_def A'_def F_def q_def by linarith
  have c2: "int (card (A' - A)) \<le> int (length ext)"
    using nm(3) lext unfolding A_def A'_def F_def q_def by linarith
  from rej validate_intermediate_counts[OF r v, of cons nb_objects d]
  have "lower_bound_tests_reject cat cons nb_objects st d
        \<or> third_test_rejects cat cons nb_objects st d"
    by auto
  with why consider
      (families) "int (nb_distinct_families cat st) < min_nb_families cons"
        "togo < min_nb_families cons - int (nb_distinct_families cat st)"
    | (quota) "togo < m - int (card A)"
    | (third) "togo < (m - int (card A)) * q" "quota_from_scratch cat cons st"
    unfolding lower_bound_tests_reject_def third_test_rejects_def
    by (auto simp: togo_def m_def q_def V)
  then show False
  proof cases
    case families
    have "int (nb_distinct_families cat (st @ ext))
          \<le> int (nb_distinct_families cat st) + int (length ext)"
      using nb_distinct_families_append[of cat st ext] by linarith
    with families f1 len show False by (simp add: togo_def)
  next
    case quota
    with f2 c1 c2 len show False by (simp add: V' togo_def)
  next
    case third
    from third(2) have q0: "0 \<le> q"
      and all: "\<forall>fam\<in>set (state_families cat st).
                 q \<le> int (count_list (state_families cat st) fam)"
      by (simp_all add: quota_from_scratch_def q_def list_all_iff)
    have c3: "q * int (card (A' - A)) \<le> int (length ext)"
      using nm(4) q0 all lext unfolding A_def A'_def F_def q_def by simp
    from f2 c1 have "m - int (card A) \<le> int (card (A' - A))" by (simp add: V')
    then have "(m - int (card A)) * q \<le> int (card (A' - A)) * q"
      using q0 by (rule mult_right_mono)
    with c3 len third(1) show False by (simp add: togo_def mult.commute)
  qed
qed

lemmas validation_simps =
  validate_intermediate_def validate_final_def ids_to_families_count_def py_index_def
  families_def families_count_def catalog_aabb_def a_sound_def two_by_two_def Let_def

lemmas count_simps =
  lower_bound_tests_reject_def third_test_rejects_def quota_from_scratch_def
  nb_distinct_families_def nb_families_meeting_quota_def state_families_def family_of_def
  catalog_aabb_def a_sound_def two_by_two_def

text \<open>Two sounds of family A, with two objects required of each of two families. With no
  level to go the family B is missing. With one level to go only the third test rejects;
  A has its two objects, and one more sound cannot bring B to two.\<close>

theorem intermediate_rejection_sound_witness:
  "is_reordering (\<lambda>xs. xs)
   \<and> validate_intermediate (\<lambda>xs. xs) catalog_aabb two_by_two 2 [0, 1] 1 = Inr False
   \<and> lower_bound_tests_reject catalog_aabb two_by_two 2 [0, 1] 1
   \<and> validate_final (\<lambda>xs. xs) catalog_aabb two_by_two ([0, 1] @ []) \<noteq> Inr True
   \<and> validate_intermediate (\<lambda>xs. xs) catalog_aabb two_by_two 3 [0, 1] 1 = Inr False
   \<and> \<not> lower_bound_tests_reject catalog_aabb two_by_two 3 [0, 1] 1
   \<and> quota_from_scratch catalog_aabb two_by_two [0, 1]
   \<and> validate_final (\<lambda>xs. xs) catalog_aabb two_by_two ([0, 1] @ [2]) \<noteq> Inr True"
proof -
  have r: "is_reordering (\<lambda>xs. xs)" by (rule is_reordering_id)
  have i2: "validate_intermediate (\<lambda>xs. xs) catalog_aabb two_by_two 2 [0, 1] 1 = Inr False"
    by (simp add: validation_simps)
  have i3: "validate_intermediate (\<lambda>xs. xs) catalog_aabb two_by_two 3 [0, 1] 1 = Inr False"
    by (simp add: validation_simps)
  have l2: "lower_bound_tests_reject catalog_aabb two_by_two 2 [0, 1] 1"
    by (simp add: count_simps)
  have l3: "\<not> lower_bound_tests_reject catalog_aabb two_by_two 3 [0, 1] 1"
    by (simp add: count_simps)
  have s: "quota_from_scratch catalog_aabb two_by_two [0, 1]"
    by (simp add: count_simps)
  have a: "validate_final (\<lambda>xs. xs) catalog_aabb two_by_two ([0, 1] @ []) \<noteq> Inr True"
    by (rule intermediate_rejection_sound[OF r i2]) (simp_all add: l2)
  have b: "validate_final (\<lambda>xs. xs) catalog_aabb two_by_two ([0, 1] @ [2]) \<noteq> Inr True"
    by (rule intermediate_rejection_sound[OF r i3]) (simp_all add: s)
  show ?thesis by (intro conjI r i2 l2 a i3 l3 s b)
qed

text \<open>Against the claim as the specification words it: one sound of A and one of B at
  level 1 of scenes of four sounds. Two levels are left and each family lacks one object,
  but the third test asks for two times two objects and rejects the state, which the sounds
  1 and 3 complete into a scene that passes the final validation.\<close>

theorem intermediate_rejection_counterexample:
  "validate_intermediate (\<lambda>xs. xs) catalog_aabb two_by_two 4 [0, 2] 1 = Inr False
   \<and> int (length [1 :: int, 3]) = 4 - 1 - 1
   \<and> validate_final (\<lambda>xs. xs) catalog_aabb two_by_two ([0, 2] @ [1, 3]) = Inr True"
  by (simp add: validation_simps)

section \<open>The three splits\<close>

subsection \<open>Floats\<close>

lemma pow2_powr: "pow2 e = 2 powr (real_of_int e)"
proof (cases "0 \<le> e")
  case True
  then show ?thesis by (simp add: pow2_def powr_realpow[symmetric])
next
  case False
  then have "real_of_int e = - real (nat (- e))" by simp
  then have "2 powr (real_of_int e) = 1 / 2 ^ nat (- e)"
    by (simp only: powr_minus powr_realpow zero_less_numeral inverse_eq_divide)
  with False show ?thesis by (simp add: pow2_def)
qed
lemma pow2_le_iff: "pow2 a \<le> pow2 b \<longleftrightarrow> a \<le> b" by (simp add: pow2_powr)


subsection \<open>Rounding\<close>

















subsection \<open>Shuffling\<close>

lemma shuffle_from_mset:
  "i < length xs \<or> i = 0 \<Longrightarrow> mset (fst (shuffle_from r i xs pos)) = mset xs"
proof (induction i arbitrary: xs pos)
  case 0
  then show ?case by simp
next
  case (Suc i)
  define j where "j = r pos mod Suc (Suc i)"
  define ys where "ys = xs[Suc i := xs ! j, j := xs ! Suc i]"
  from Suc.prems have l: "Suc i < length xs" by simp
  have "j < Suc (Suc i)" unfolding j_def by simp
  with l have jl: "j < length xs" by simp
  have "mset ys = mset xs" unfolding ys_def by (rule mset_swap[OF jl l])
  moreover have "i < length ys \<or> i = 0" using l by (simp add: ys_def)
  ultimately show ?case using Suc.IH[of ys "Suc pos"] by (simp add: Let_def j_def ys_def)
qed

lemma shuffle_mset: "mset (fst (shuffle r xs pos)) = mset xs"
  unfolding shuffle_def by (rule shuffle_from_mset) (cases xs; simp)

lemma shuffle_length: "length (fst (shuffle r xs pos)) = length xs"
  using arg_cong[OF shuffle_mset[of r xs pos], of size] by simp

lemma shuffle_set: "set (fst (shuffle r xs pos)) = set xs"
  using mset_eq_setD[OF shuffle_mset[of r xs pos]] .

subsection \<open>Labelling\<close>




subsection \<open>The ids of the scenes are ids of the catalogue\<close>






subsection \<open>The sizes of the splits\<close>






lemmas float_simps =
  nb_training_of_def nb_valid_of_def float_of_int_def py_round_def to_double_def
  nearest_double_def ulp_exponent_def binade_def compute_bitlen pow2_def round_half_even_def
  Let_def


text \<open>Outside the claim: an infinite ratio and a ratio that is not a number make
  \<^verbatim>\<open>round\<close> raise.\<close>

lemma split_numbers_raise:
  "nb_training_of 4 (Infinity False) = Inl OverflowError"
  "nb_training_of 0 (Infinity False) = Inl ValueError"
  "nb_training_of 4 NaN = Inl ValueError"
  by (simp_all add: float_simps)


section \<open>Determinism\<close>

text \<open>The validations do not depend on the iteration order of the set of absent
  families.\<close>

lemma validate_final_order:
  assumes "is_reordering o1" and "is_reordering o2"
  shows "validate_final o1 cat cons st = validate_final o2 cat cons st"
proof (cases "\<forall>i\<in>set st. valid_id cat i")
  case True
  then show ?thesis by (simp add: validate_final_counts assms)
next
  case False
  then show ?thesis by (simp add: validate_final_invalid)
qed

lemma validate_intermediate_order:
  assumes "is_reordering o1" and "is_reordering o2"
  shows "validate_intermediate o1 cat cons nb_objects st d
         = validate_intermediate o2 cat cons nb_objects st d"
proof (cases "\<forall>i\<in>set st. valid_id cat i")
  case True
  then show ?thesis by (simp add: validate_intermediate_counts assms)
next
  case False
  then show ?thesis by (simp add: validate_intermediate_invalid)
qed

lemma step_environment:
  assumes "rnd e1 = rnd e2" and "is_reordering (set_order e1)" and "is_reordering (set_order e2)"
  shows "step e1 gen nb s = step e2 gen nb s"
proof -
  have a: "add_new_child e1 gen s c i p = add_new_child e2 gen s c i p" for c i p
    unfolding add_new_child_def validate_intermediate_order[OF assms(2,3)] by (rule refl)
  have b: "reached_bottom e1 gen nb s c = reached_bottom e2 gen nb s c" for c
    unfolding reached_bottom_def validate_final_order[OF assms(2,3)] by (rule refl)
  show ?thesis unfolding step_def a b assms(1) by (rule refl)
qed

lemma search_loop_environment_aux:
  assumes "search_loop e1 gen nb s = Some y"
  shows "(\<forall>s. step e1 gen nb s = step e2 gen nb s) \<longrightarrow> search_loop e2 gen nb s = Some y"
proof (rule search_loop.raw_induct
    [where P = "\<lambda>e1 gen nb s y.
        (\<forall>s. step e1 gen nb s = step e2 gen nb s) \<longrightarrow> search_loop e2 gen nb s = Some y",
      OF _ assms], goal_cases)
  case (1 loop e1 gen nb s y)
  show ?case
  proof
    assume eq: "\<forall>s. step e1 gen nb s = step e2 gen nb s"
    then have st2: "step e2 gen nb s = step e1 gen nb s" by simp
    show "search_loop e2 gen nb s = Some y"
    proof (cases "continue_work s")
      case False
      with 1(2) show ?thesis by (simp add: search_loop.simps[of e2 gen nb s])
    next
      case True
      show ?thesis
      proof (cases "step e1 gen nb s")
        case None
        with True 1(2) show ?thesis by simp
      next
        case (Some res)
        show ?thesis
        proof (cases res)
          case (Inl e)
          with Some True 1(2) have y: "y = Inl e" by simp
          have "step e2 gen nb s = Some (Inl e)" using st2 Some Inl by simp
          with True show ?thesis unfolding y by (simp add: search_loop.simps[of e2 gen nb s])
        next
          case (Inr s1)
          with Some True 1(2) have "loop e1 gen nb s1 = Some y" by simp
          from 1(1)[OF this] eq have "search_loop e2 gen nb s1 = Some y" by blast
          moreover have "step e2 gen nb s = Some (Inr s1)" using st2 Some Inr by simp
          ultimately show ?thesis using True by (simp add: search_loop.simps[of e2 gen nb s])
        qed
      qed
    qed
  qed
qed

lemma search_loop_environment:
  assumes "\<forall>s. step e1 gen nb s = step e2 gen nb s"
  shows "search_loop e1 gen nb s = search_loop e2 gen nb s"
proof (cases "search_loop e1 gen nb s")
  case (Some y)
  with search_loop_environment_aux[OF Some, of e2] assms show ?thesis by simp
next
  case None
  show ?thesis
  proof (cases "search_loop e2 gen nb s")
    case n2: None
    with None show ?thesis by simp
  next
    case (Some y)
    from search_loop_environment_aux[OF Some, of e1] assms have "search_loop e1 gen nb s = Some y"
      by simp
    with None show ?thesis by simp
  qed
qed

lemma generate_scenes_idx_environment:
  assumes "rnd e1 = rnd e2" and "is_reordering (set_order e1)" and "is_reordering (set_order e2)"
  shows "generate_scenes_idx e1 gen start nb pos = generate_scenes_idx e2 gen start nb pos"
proof -
  have "\<forall>s. step e1 gen nb s = step e2 gen nb s"
    using step_environment[OF assms] by blast
  from search_loop_environment[OF this] show ?thesis by (simp add: generate_scenes_idx_def)
qed

lemma generate_environment:
  assumes "rnd e1 = rnd e2" and "is_reordering (set_order e1)" and "is_reordering (set_order e2)"
  shows "generate e1 gen start nb r sh pos = generate e2 gen start nb r sh pos"
  unfolding generate_def generate_scenes_idx_environment[OF assms] split_scenes_def assms(1)
  by (rule refl)

text \<open>
  Claim C6. Two runs with the same seed, the same catalogue and the same configuration
  return the same scenes: the same id sequences in the same order, hence the same multiset
  of id sequences, and the same three splits. The two runs may differ in what the program
  does not control, the iteration order of string sets and the state of the generator
  before it is seeded.
\<close>

theorem same_seed_same_scenes:
  assumes "is_reordering (set_order env1)" and "is_reordering (set_order env2)"
  shows "generate_scenes_idx (env1\<lparr>rnd := seeded n\<rparr>) gen start nb pos
           = generate_scenes_idx (env2\<lparr>rnd := seeded n\<rparr>) gen start nb pos
         \<and> scenes_multiset (generate_scenes_idx (env1\<lparr>rnd := seeded n\<rparr>) gen start nb pos)
           = scenes_multiset (generate_scenes_idx (env2\<lparr>rnd := seeded n\<rparr>) gen start nb pos)
         \<and> (random_nb_generator_seed a = Some n
              \<longrightarrow> main seeded env1 cat a = main seeded env2 cat a)"
proof -
  have e: "rnd (env1\<lparr>rnd := seeded n\<rparr>) = rnd (env2\<lparr>rnd := seeded n\<rparr>)"
    "is_reordering (set_order (env1\<lparr>rnd := seeded n\<rparr>))"
    "is_reordering (set_order (env2\<lparr>rnd := seeded n\<rparr>))"
    using assms by simp_all
  have g: "generate_scenes_idx (env1\<lparr>rnd := seeded n\<rparr>) gen start nb pos
           = generate_scenes_idx (env2\<lparr>rnd := seeded n\<rparr>) gen start nb pos"
    by (rule generate_scenes_idx_environment[OF e])
  have m: "main seeded env1 cat a = main seeded env2 cat a"
    if "random_nb_generator_seed a = Some n"
    using that generate_environment[OF e] by (simp add: main_def Let_def)
  from g m show ?thesis by simp
qed

lemma is_reordering_rev: "is_reordering rev"
  by (simp add: is_reordering_def)

text \<open>The run of \<open>two_of_abc\<close> with seed 0, once with the absent families in the order
  of the catalogue and once in the reverse order.\<close>

theorem same_seed_same_scenes_witness:
  "is_reordering (set_order counting_env)
   \<and> is_reordering (set_order (counting_env\<lparr>set_order := rev\<rparr>))
   \<and> random_nb_generator_seed seeded_args = Some 0
   \<and> generate_scenes_idx (counting_env\<lparr>set_order := rev, rnd := counting_from 0\<rparr>)
        two_of_abc 0 None 0
       = Some (Inr ([[0, 1], [0, 2], [1, 2], [1, 0]], 7))
   \<and> main counting_from counting_env catalog_abc seeded_args
       = main counting_from (counting_env\<lparr>set_order := rev\<rparr>) catalog_abc seeded_args"
proof -
  have r1: "is_reordering (set_order counting_env)"
    by (simp add: counting_env_def is_reordering_id)
  have r2: "is_reordering (set_order (counting_env\<lparr>set_order := rev\<rparr>))"
    by (simp add: is_reordering_rev)
  have sd: "random_nb_generator_seed seeded_args = Some 0" by (simp add: seeded_args_def)
  have c: "counting_env\<lparr>rnd := counting_from 0\<rparr> = counting_env"
    by (simp add: counting_env_def counting_from_def fun_eq_iff)
  note t = same_seed_same_scenes[OF r1 r2, of counting_from 0 two_of_abc 0 None 0
      seeded_args catalog_abc]
  from t[THEN conjunct1] run_two_of_abc
  have run: "generate_scenes_idx (counting_env\<lparr>set_order := rev, rnd := counting_from 0\<rparr>)
               two_of_abc 0 None 0
             = Some (Inr ([[0, 1], [0, 2], [1, 2], [1, 0]], 7))"
    by (simp add: c)
  from t[THEN conjunct2, THEN conjunct2] sd
  have m: "main counting_from counting_env catalog_abc seeded_args
           = main counting_from (counting_env\<lparr>set_order := rev\<rparr>) catalog_abc seeded_args"
    by blast
  show ?thesis by (intro conjI r1 r2 sd run m)
qed

end
